theory Spec2Isabelle
  imports Complex_Main "HOL-Library.Multiset"
begin

section \<open>Python primitives used by the notebooks\<close>

text \<open>
  \<^verbatim>\<open>str(n)\<close> of a Python integer: the decimal digits, most significant first, with a
  leading minus sign for a negative number.
\<close>

definition digit_char :: "nat \<Rightarrow> char" where
  "digit_char d = char_of (48 + d)"

function str_nat :: "nat \<Rightarrow> string" where
  "str_nat n = (if n < 10 then [digit_char n] else str_nat (n div 10) @ [digit_char (n mod 10)])"
  by pat_completeness auto
termination
  by (relation "measure id") auto

declare str_nat.simps [simp del]

definition str_int :: "int \<Rightarrow> string" where
  "str_int i = (if i < 0 then CHR ''-'' # str_nat (nat (- i)) else str_nat (nat i))"

text \<open>\<^verbatim>\<open>sep.join(xs)\<close>.\<close>

fun py_join :: "string \<Rightarrow> string list \<Rightarrow> string" where
  "py_join sep [] = []"
| "py_join sep [x] = x"
| "py_join sep (x # y # ys) = x @ sep @ py_join sep (y # ys)"

text \<open>\<^verbatim>\<open>s.rstrip("\n")\<close>: every trailing line feed is removed.\<close>

definition newline :: char where
  "newline = CHR 0x0A"

definition rstrip_nl :: "string \<Rightarrow> string" where
  "rstrip_nl s = rev (dropWhile (\<lambda>c. c = newline) (rev s))"

text \<open>
  Iterating over a text file yields its lines, each with its terminating line feed; the
  last line has none when the file does not end with one. \<open>cur\<close> is the line read so far.
\<close>

fun file_lines_acc :: "string \<Rightarrow> string \<Rightarrow> string list" where
  "file_lines_acc cur [] = (if cur = [] then [] else [cur])"
| "file_lines_acc cur (c # cs) =
     (if c = newline then (cur @ [c]) # file_lines_acc [] cs
      else file_lines_acc (cur @ [c]) cs)"

definition file_lines :: "string \<Rightarrow> string list" where
  "file_lines content = file_lines_acc [] content"

text \<open>
  The double nearest to the literal \<^verbatim>\<open>0.7\<close> is \<open>6305039478318694 / 2^53\<close>, and the
  double nearest to \<^verbatim>\<open>.85\<close> is \<open>7656119366529843 / 2^53\<close>.
\<close>

definition dbl_0_7 :: nat where
  "dbl_0_7 = 6305039478318694"

definition dbl_0_85 :: nat where
  "dbl_0_85 = 7656119366529843"

section \<open>JSON values and \<^verbatim>\<open>json.dumps\<close>\<close>

text \<open>
  The records built by the notebooks are dictionaries of strings and dictionaries; a
  dictionary keeps the order in which its keys were written.
\<close>

datatype json = JString string | JObject "(string \<times> json) list"

definition hex_digit :: "nat \<Rightarrow> char" where
  "hex_digit d = (if d < 10 then char_of (48 + d) else char_of (87 + d))"

text \<open>
  The escaping of \<^verbatim>\<open>json.dumps\<close> with \<^verbatim>\<open>ensure_ascii=True\<close>: the backslash and the
  double quote get a backslash, the usual control characters their letter, and every
  other character outside \<^verbatim>\<open>' '..'~'\<close> the form \<^verbatim>\<open>\u00xx\<close>.
\<close>

definition esc_char :: "char \<Rightarrow> string" where
  "esc_char c =
     (if c = CHR 0x5C then [CHR 0x5C, CHR 0x5C]
      else if c = CHR 0x22 then [CHR 0x5C, CHR 0x22]
      else if c = CHR 0x08 then [CHR 0x5C, CHR ''b'']
      else if c = CHR 0x0C then [CHR 0x5C, CHR ''f'']
      else if c = CHR 0x0A then [CHR 0x5C, CHR ''n'']
      else if c = CHR 0x0D then [CHR 0x5C, CHR ''r'']
      else if c = CHR 0x09 then [CHR 0x5C, CHR ''t'']
      else if (of_char c :: nat) < 32 \<or> 126 < (of_char c :: nat)
        then [CHR 0x5C, CHR ''u'', CHR ''0'', CHR ''0'',
              hex_digit (of_char c div 16), hex_digit (of_char c mod 16)]
      else [c])"

definition json_string :: "string \<Rightarrow> string" where
  "json_string s = CHR 0x22 # concat (map esc_char s) @ [CHR 0x22]"

fun json_dumps :: "json \<Rightarrow> string"
  and dumps_items :: "(string \<times> json) list \<Rightarrow> string" where
  "json_dumps (JString s) = json_string s"
| "json_dumps (JObject kvs) = ''{'' @ dumps_items kvs @ ''}''"
| "dumps_items [] = []"
| "dumps_items [(k, v)] = json_string k @ '': '' @ json_dumps v"
| "dumps_items ((k, v) # kv # kvs) =
     json_string k @ '': '' @ json_dumps v @ '', '' @ dumps_items (kv # kvs)"

section \<open>Synthetic ground truth\<close>

text \<open>
  The generator of the module \<^verbatim>\<open>random\<close> is a global: \<^verbatim>\<open>random.seed(x)\<close> replaces its
  state by one computed from \<open>x\<close> alone, and \<^verbatim>\<open>random.random()\<close> draws a double
  \<open>k / 2^53\<close> with \<open>k < 2^53\<close> and advances the state. Both are library code, taken
  here as the parameters \<open>seed\<close> and \<open>random\<close>; \<open>random\<close> returns the numerator \<open>k\<close>.
  The comparison \<^verbatim>\<open>rand < 0.7\<close> of two doubles is the comparison of their numerators.
\<close>

definition ground_truth_with_id ::
  "(int \<Rightarrow> 'g) \<Rightarrow> ('g \<Rightarrow> nat \<times> 'g) \<Rightarrow> 'g \<Rightarrow> int \<Rightarrow> json \<times> 'g" where
  "ground_truth_with_id seed random g inference_id =
     (let g1 = seed inference_id;
          (rand, g2) = random g1
      in (JObject
            [(''groundTruthData'',
                JObject [(''data'', JString (if rand < dbl_0_7 then ''1'' else ''0'')),
                         (''encoding'', JString ''CSV'')]),
             (''eventMetadata'', JObject [(''eventId'', JString (str_int inference_id))]),
             (''eventVersion'', JString ''0'')],
          g2))"

text \<open>The list comprehension \<^verbatim>\<open>[ground_truth_with_id(i) for i in ...]\<close>, threading the generator.\<close>

fun ground_truth_records ::
  "(int \<Rightarrow> 'g) \<Rightarrow> ('g \<Rightarrow> nat \<times> 'g) \<Rightarrow> 'g \<Rightarrow> int list \<Rightarrow> json list \<times> 'g" where
  "ground_truth_records seed random g [] = ([], g)"
| "ground_truth_records seed random g (i # is) =
     (let (r, g1) = ground_truth_with_id seed random g i;
          (rs, g2) = ground_truth_records seed random g1 is
      in (r # rs, g2))"

record s3_upload =
  s3_body :: string
  s3_uri :: string

text \<open>
  \<open>upload_ground_truth\<close>: \<open>stamp\<close> is \<^verbatim>\<open>upload_time\<close> formatted by
  \<^verbatim>\<open>%Y/%m/%d/%H/%M%S\<close>, \<open>path\<close> is \<^verbatim>\<open>s3_ground_truth_upload_path\<close>. The result is the
  call made to \<^verbatim>\<open>S3Uploader.upload_string_as_file_body\<close> and the generator left behind.
\<close>

definition upload_ground_truth ::
  "(int \<Rightarrow> 'g) \<Rightarrow> ('g \<Rightarrow> nat \<times> 'g) \<Rightarrow> string \<Rightarrow> string \<Rightarrow> 'g \<Rightarrow> s3_upload \<times> 'g" where
  "upload_ground_truth seed random path stamp g =
     (let (records, g1) = ground_truth_records seed random g (map int [0..<180]);
          fake_records = map json_dumps records;
          data_to_upload = py_join [newline] fake_records;
          target_s3_uri = path @ ''/'' @ stamp @ ''.jsonl''
      in (\<lparr>s3_body = data_to_upload, s3_uri = target_s3_uri\<rparr>, g1))"

section \<open>The background worker thread\<close>

text \<open>
  What a thread does to the outside world, in the order it does it: a call of the
  runtime client's \<^verbatim>\<open>invoke_endpoint\<close> with its four arguments, the read of the response
  body, a \<^verbatim>\<open>time.sleep\<close>, and a read of the cancellation event with the value found.
\<close>

datatype effect =
    InvokeEndpoint string string string string
  | ReadBody
  | Sleep nat
  | IsSet bool

text \<open>
  A function run by the thread is cut at its statements, so that \<^verbatim>\<open>terminate()\<close> of the
  main thread can fall between any two of them. One step executes one statement; it is
  given the value the event has at that moment and either goes on, returns, or raises.
\<close>

datatype 'a outcome = Running 'a | Returned | Raised

datatype ie_pc = AtOpen | AtFor | AtInvoke | AtIncr | AtRead | AtSleep | AtIf

text \<open>
  The local variables of \<open>invoke_endpoint\<close>: the lines of \<open>f\<close> not yet read, \<open>i\<close>, \<open>payload\<close>,
  and of \<open>response\<close> whether its body can be read.
\<close>

record ie_state =
  ie_pc :: ie_pc
  ie_rows :: "string list"
  ie_i :: nat
  ie_payload :: string
  ie_response :: bool

definition ie_init :: ie_state where
  "ie_init = \<lparr>ie_pc = AtOpen, ie_rows = [], ie_i = 0, ie_payload = [], ie_response = False\<rparr>"

text \<open>
  \<open>invoke_endpoint\<close>, statement by statement. \<open>file\<close> is the content of
  \<^verbatim>\<open>test-samples-no-header.csv\<close> as text mode delivers it, every line end a line feed
  (\<open>None\<close>: the file cannot be opened), \<open>endpoint_name\<close> the
  global of that name, and \<open>remote body id\<close> is the outcome of the remote call with that body
  and inference id: \<open>None\<close> when the call raises, otherwise whether the body of the response
  can be read. An exception of the call or of the read leaves the function.
\<close>

definition invoke_endpoint_step ::
  "string option \<Rightarrow> string \<Rightarrow> (string \<Rightarrow> string \<Rightarrow> bool option) \<Rightarrow> bool \<Rightarrow> ie_state
     \<Rightarrow> effect list \<times> ie_state outcome" where
  "invoke_endpoint_step file endpoint_name remote terminate_event s =
     (case ie_pc s of
        AtOpen \<Rightarrow>
          (case file of
             None \<Rightarrow> ([], Raised)
           | Some content \<Rightarrow>
               ([], Running (s\<lparr>ie_pc := AtFor, ie_rows := file_lines content, ie_i := 0\<rparr>)))
      | AtFor \<Rightarrow>
          (case ie_rows s of
             [] \<Rightarrow> ([], Returned)
           | row # rest \<Rightarrow>
               ([], Running (s\<lparr>ie_pc := AtInvoke, ie_rows := rest, ie_payload := rstrip_nl row\<rparr>)))
      | AtInvoke \<Rightarrow>
          ([InvokeEndpoint endpoint_name ''text/csv'' (ie_payload s) (str_int (int (ie_i s)))],
           case remote (ie_payload s) (str_int (int (ie_i s))) of
             None \<Rightarrow> Raised
           | Some readable \<Rightarrow> Running (s\<lparr>ie_pc := AtIncr, ie_response := readable\<rparr>))
      | AtIncr \<Rightarrow> ([], Running (s\<lparr>ie_pc := AtRead, ie_i := ie_i s + 1\<rparr>))
      | AtRead \<Rightarrow>
          ([ReadBody], if ie_response s then Running (s\<lparr>ie_pc := AtSleep\<rparr>) else Raised)
      | AtSleep \<Rightarrow> ([Sleep 1], Running (s\<lparr>ie_pc := AtIf\<rparr>))
      | AtIf \<Rightarrow>
          ([IsSet terminate_event],
           if terminate_event then Returned else Running (s\<lparr>ie_pc := AtFor\<rparr>)))"

text \<open>
  One call of a function of the thread, run to its end: \<open>flags\<close> gives the value of the
  event at each of its steps. The result is \<open>Running\<close> when the steps given do not suffice.
\<close>

fun drive ::
  "(bool \<Rightarrow> 'a \<Rightarrow> effect list \<times> 'a outcome) \<Rightarrow> bool list \<Rightarrow> 'a \<Rightarrow> effect list \<times> 'a outcome" where
  "drive step [] s = ([], Running s)"
| "drive step (f # fs) s =
     (case step f s of
        (es, Running s') \<Rightarrow> (let (es', out) = drive step fs s' in (es @ es', out))
      | (es, Returned) \<Rightarrow> (es, Returned)
      | (es, Raised) \<Rightarrow> (es, Raised))"

text \<open>
  \<open>WorkerThread\<close>: \<open>run\<close> tests the event, calls \<open>do_run\<close>, and tests again; \<open>terminate\<close>
  sets the event. \<open>Exited\<close> is the thread after \<open>run\<close> has returned, \<open>Died\<close> the thread
  killed by an exception of \<open>do_run\<close>.
\<close>

datatype 'a thread_pc = WhileTest | InDoRun 'a | Exited | Died

record 'a worker =
  pc :: "'a thread_pc"
  terminate_event :: bool
  effects :: "effect list"

definition terminate :: "'a worker \<Rightarrow> 'a worker" where
  "terminate w = w\<lparr>terminate_event := True\<rparr>"

definition run_step ::
  "'a \<Rightarrow> (bool \<Rightarrow> 'a \<Rightarrow> effect list \<times> 'a outcome) \<Rightarrow> 'a worker \<Rightarrow> 'a worker" where
  "run_step do_run_init do_run_step w =
     (case pc w of
        WhileTest \<Rightarrow>
          w\<lparr>pc := (if terminate_event w then Exited else InDoRun do_run_init),
            effects := effects w @ [IsSet (terminate_event w)]\<rparr>
      | InDoRun s \<Rightarrow>
          (case do_run_step (terminate_event w) s of
             (es, out) \<Rightarrow>
               w\<lparr>pc := (case out of Running s' \<Rightarrow> InDoRun s' | Returned \<Rightarrow> WhileTest
                                    | Raised \<Rightarrow> Died),
                 effects := effects w @ es\<rparr>)
      | Exited \<Rightarrow> w
      | Died \<Rightarrow> w)"

text \<open>
  An execution of the notebook kernel with one worker: at each tick either the worker
  executes a statement or the main thread calls \<open>terminate\<close>.
\<close>

datatype tick = WorkerStep | Terminate

fun exec ::
  "'a \<Rightarrow> (bool \<Rightarrow> 'a \<Rightarrow> effect list \<times> 'a outcome) \<Rightarrow> tick list \<Rightarrow> 'a worker \<Rightarrow> 'a worker" where
  "exec do_run_init do_run_step [] w = w"
| "exec do_run_init do_run_step (WorkerStep # ts) w =
     exec do_run_init do_run_step ts (run_step do_run_init do_run_step w)"
| "exec do_run_init do_run_step (Terminate # ts) w =
     exec do_run_init do_run_step ts (terminate w)"

text \<open>The thread started by \<^verbatim>\<open>WorkerThread(do_run=invoke_endpoint).start()\<close>.\<close>

definition invoke_endpoint_thread :: "ie_state worker" where
  "invoke_endpoint_thread = \<lparr>pc = WhileTest, terminate_event = False, effects = []\<rparr>"

fun is_invocation :: "effect \<Rightarrow> bool" where
  "is_invocation (InvokeEndpoint _ _ _ _) = True"
| "is_invocation _ = False"

definition invocations :: "'a worker \<Rightarrow> nat" where
  "invocations w = length (filter is_invocation (effects w))"

definition finished :: "'a worker \<Rightarrow> bool" where
  "finished w = (case pc w of Exited \<Rightarrow> True | Died \<Rightarrow> True | _ \<Rightarrow> False)"

text \<open>
  Two ranking functions of the traffic-generation worker for the time after the event has
  been set: the invocations it may still make, and the statements it may still execute.
\<close>

definition pending :: "ie_state worker \<Rightarrow> nat" where
  "pending w =
     (case pc w of
        InDoRun s \<Rightarrow> (case ie_pc s of AtOpen \<Rightarrow> 1 | AtFor \<Rightarrow> 1 | AtInvoke \<Rightarrow> 1 | _ \<Rightarrow> 0)
      | _ \<Rightarrow> 0)"

definition steps_left :: "ie_state worker \<Rightarrow> nat" where
  "steps_left w =
     (case pc w of
        WhileTest \<Rightarrow> 1
      | InDoRun s \<Rightarrow>
          (case ie_pc s of AtOpen \<Rightarrow> 8 | AtFor \<Rightarrow> 7 | AtInvoke \<Rightarrow> 6 | AtIncr \<Rightarrow> 5
                         | AtRead \<Rightarrow> 4 | AtSleep \<Rightarrow> 3 | AtIf \<Rightarrow> 2)
      | Exited \<Rightarrow> 0
      | Died \<Rightarrow> 0)"

text \<open>
  What the specification says \<open>invoke_endpoint\<close> does for the line \<open>row\<close> read as number
  \<open>j\<close>: one remote call with the stripped line and \<open>str(j)\<close>, the read of the response, a
  sleep of one second, and then the test of the event, which finds it clear.
\<close>

definition row_effects :: "string \<Rightarrow> nat \<times> string \<Rightarrow> effect list" where
  "row_effects endpoint_name jr =
     [InvokeEndpoint endpoint_name ''text/csv'' (rstrip_nl (snd jr)) (str_int (int (fst jr))),
      ReadBody, Sleep 1, IsSet False]"

section \<open>Threads created by the notebooks\<close>

text \<open>
  The statements of a notebook that create concurrency, in cell order:
  \<^verbatim>\<open>v = WorkerThread(do_run=f)\<close>, \<^verbatim>\<open>v.start()\<close> and \<^verbatim>\<open>v.terminate()\<close>. The kernel keeps the
  variables bound to thread objects and the threads that have been started and not yet asked
  to terminate; \<open>peak\<close> is the largest number of such threads seen so far. Starting through
  an unbound name or starting a thread twice raises, as does terminating through an
  unbound name.
\<close>

datatype thread_stmt =
    NewWorkerThread string string
  | StartThread string
  | TerminateThread string

record kernel =
  bound :: "(string \<times> string) list"
  alive :: "string list"
  started :: nat
  peak :: nat

definition kernel_init :: kernel where
  "kernel_init = \<lparr>bound = [], alive = [], started = 0, peak = 0\<rparr>"

fun thread_stmt_exec :: "thread_stmt \<Rightarrow> kernel \<Rightarrow> kernel option" where
  "thread_stmt_exec (NewWorkerThread v f) k = Some (k\<lparr>bound := (v, f) # bound k\<rparr>)"
| "thread_stmt_exec (StartThread v) k =
     (if map_of (bound k) v = None \<or> v \<in> set (alive k) then None
      else Some (k\<lparr>alive := v # alive k, started := started k + 1,
                    peak := max (peak k) (length (v # alive k))\<rparr>))"
| "thread_stmt_exec (TerminateThread v) k =
     (if map_of (bound k) v = None then None
      else Some (k\<lparr>alive := removeAll v (alive k)\<rparr>))"

fun notebook_exec :: "thread_stmt list \<Rightarrow> kernel \<Rightarrow> kernel option" where
  "notebook_exec [] k = Some k"
| "notebook_exec (st # sts) k =
     (case thread_stmt_exec st k of None \<Rightarrow> None | Some k' \<Rightarrow> notebook_exec sts k')"

text \<open>
  The data-quality monitoring notebook (\<^verbatim>\<open>part_000\<close>) and the model-quality monitoring
  notebook (the second notebook of \<^verbatim>\<open>part_002\<close>). The other eight notebooks of the
  repository contain no statement of these kinds.
\<close>

definition data_quality_notebook :: "thread_stmt list" where
  "data_quality_notebook =
     [NewWorkerThread ''invoke_endpoint_thread'' ''invoke_endpoint'',
      StartThread ''invoke_endpoint_thread'',
      TerminateThread ''invoke_endpoint_thread'']"

definition model_quality_notebook :: "thread_stmt list" where
  "model_quality_notebook =
     [NewWorkerThread ''invoke_endpoint_thread'' ''invoke_endpoint'',
      StartThread ''invoke_endpoint_thread'',
      NewWorkerThread ''ground_truth_thread'' ''generate_fake_ground_truth'',
      StartThread ''ground_truth_thread'',
      TerminateThread ''invoke_endpoint_thread'',
      TerminateThread ''ground_truth_thread'']"

definition other_notebook :: "thread_stmt list" where
  "other_notebook = []"

definition thread_summary :: "kernel \<Rightarrow> nat \<times> nat \<times> string list" where
  "thread_summary k = (started k, peak k, alive k)"

section \<open>Exception handlers\<close>











section \<open>Lifecycle state of the platform\<close>

text \<open>
  The part of the remote platform that the notebooks' cells act on: the approval status of
  each model package, the state of each monitoring schedule with the endpoint it watches and
  whether one of its executions is in progress, the status of each endpoint and the state
  of each job. The service calls below are library code; their effect is written as the
  notebooks' own text describes it (\<^verbatim>\<open>update its status to Approved\<close>,
  \<^verbatim>\<open>stop and then delete all monitors\<close>, \<^verbatim>\<open>can't delete schedule as it has in-progress
  executions\<close>).
\<close>

datatype approval_status = PendingManualApproval | Approved | Rejected

datatype schedule_state = Pending | Scheduled | Stopped












section \<open>Double arithmetic of the split points\<close>

text \<open>
  \<^verbatim>\<open>int(.7*len(df))\<close> converts the length to a double, multiplies two doubles and truncates.
  A double holds 53 significant bits; conversion and multiplication round the exact result
  to the nearest such number, ties to the even one. \<open>round_sig p\<close> is the natural number
  \<open>p\<close> so rounded. The product of \<open>m / 2^53\<close> and \<open>n\<close> is \<open>round_sig (m * n) / 2^53\<close>, since
  rounding to significant bits commutes with scaling by a power of two, and \<^verbatim>\<open>int\<close> takes
  its integral part. (Lengths are far below the range where a double overflows.)
\<close>

function bit_length :: "nat \<Rightarrow> nat" where
  "bit_length n = (if n = 0 then 0 else Suc (bit_length (n div 2)))"
  by pat_completeness auto
termination
  by (relation "measure id") auto

declare bit_length.simps [simp del]

definition round_sig :: "nat \<Rightarrow> nat" where
  "round_sig p =
     (if bit_length p \<le> 53 then p
      else let k = bit_length p - 53;
               q = p div 2 ^ k;
               r = p mod 2 ^ k;
               h = 2 ^ (k - 1)
           in (if h < r \<or> (r = h \<and> odd q) then q + 1 else q) * 2 ^ k)"

definition int_mul_double :: "nat \<Rightarrow> nat \<Rightarrow> nat" where
  "int_mul_double m n = round_sig (m * round_sig n) div 2 ^ 53"

section \<open>Data frames and the preprocessing script\<close>

text \<open>
  A column holds numbers (the integer and floating-point dtypes; the values are finite) or
  strings (the dtype \<^verbatim>\<open>object\<close>, as \<^verbatim>\<open>read_csv\<close> gives it to a column with a non-numeric
  entry). A frame is its row labels and its labelled columns in order. \<^verbatim>\<open>read_csv\<close> makes the
  labels of the frame it returns distinct.
\<close>

datatype column = NumCol "rat list" | ObjCol "string list"

record dataframe =
  df_index :: "nat list"
  df_columns :: "(string \<times> column) list"

datatype py_error = KeyError string

fun col_len :: "column \<Rightarrow> nat" where
  "col_len (NumCol vs) = length vs"
| "col_len (ObjCol vs) = length vs"

fun is_object :: "column \<Rightarrow> bool" where
  "is_object (NumCol vs) = False"
| "is_object (ObjCol vs) = True"

definition labels :: "dataframe \<Rightarrow> string list" where
  "labels df = map fst (df_columns df)"

text \<open>\<^verbatim>\<open>len(df)\<close>.\<close>

definition len :: "dataframe \<Rightarrow> nat" where
  "len df = length (df_index df)"

text \<open>Every column has one entry for each row.\<close>

definition aligned :: "dataframe \<Rightarrow> bool" where
  "aligned df = list_all (\<lambda>c. col_len (snd c) = len df) (df_columns df)"

definition wf_frame :: "dataframe \<Rightarrow> bool" where
  "wf_frame df = (distinct (labels df) \<and> aligned df)"

text \<open>
  \<^verbatim>\<open>df[name]\<close> for a single label, on a frame with distinct labels: the column, or
  \<^verbatim>\<open>KeyError\<close>.
\<close>

definition getitem :: "dataframe \<Rightarrow> string \<Rightarrow> py_error + column" where
  "getitem df name =
     (case map_of (df_columns df) name of None \<Rightarrow> Inl (KeyError name) | Some c \<Rightarrow> Inr c)"

text \<open>\<^verbatim>\<open>df[name] = c\<close>: the column of that label is replaced, a new label is appended.\<close>

definition setitem :: "dataframe \<Rightarrow> string \<Rightarrow> column \<Rightarrow> dataframe" where
  "setitem df name c =
     (if name \<in> set (labels df)
      then df\<lparr>df_columns := map (\<lambda>(k, old). if k = name then (k, c) else (k, old)) (df_columns df)\<rparr>
      else df\<lparr>df_columns := df_columns df @ [(name, c)]\<rparr>)"

text \<open>\<^verbatim>\<open>(s == 999).astype(int)\<close>: a string never equals a number.\<close>

fun eq_999 :: "column \<Rightarrow> column" where
  "eq_999 (NumCol vs) = NumCol (map (\<lambda>v. if v = 999 then 1 else 0) vs)"
| "eq_999 (ObjCol vs) = NumCol (map (\<lambda>v. 0) vs)"

text \<open>\<^verbatim>\<open>s.isin(values).astype(int)\<close> for a list of strings: a number is never one of them.\<close>

fun isin :: "string list \<Rightarrow> column \<Rightarrow> column" where
  "isin values (NumCol vs) = NumCol (map (\<lambda>v. 0) vs)"
| "isin values (ObjCol vs) = NumCol (map (\<lambda>v. if v \<in> set values then 1 else 0) vs)"

text \<open>
  \<^verbatim>\<open>df[names]\<close> for a list of labels: for each label in turn every column that carries it;
  a label that is missing raises.
\<close>

fun select_columns :: "dataframe \<Rightarrow> string list \<Rightarrow> py_error + (string \<times> column) list" where
  "select_columns df [] = Inr []"
| "select_columns df (name # names) =
     (if name \<notin> set (labels df) then Inl (KeyError name)
      else case select_columns df names of
             Inl e \<Rightarrow> Inl e
           | Inr cs \<Rightarrow> Inr (filter (\<lambda>c. fst c = name) (df_columns df) @ cs))"

text \<open>
  The order of Python strings: by code point, a proper prefix first. The levels of a
  categorical column are its distinct values in that order.
\<close>

fun str_less :: "string \<Rightarrow> string \<Rightarrow> bool" where
  "str_less [] [] = False"
| "str_less [] (y # ys) = True"
| "str_less (x # xs) [] = False"
| "str_less (x # xs) (y # ys) =
     ((of_char x :: nat) < of_char y \<or> (x = y \<and> str_less xs ys))"

fun insort_str :: "string \<Rightarrow> string list \<Rightarrow> string list" where
  "insort_str v [] = [v]"
| "insort_str v (l # ls) = (if str_less l v then l # insort_str v ls else v # l # ls)"

definition levels :: "string list \<Rightarrow> string list" where
  "levels vs = foldr insort_str (remdups vs) []"

text \<open>
  \<^verbatim>\<open>pd.get_dummies(df)\<close>: a frame without a column of strings is returned as it is;
  otherwise the numeric columns come first, followed for each column of strings, in order,
  by one indicator column for each of its levels, labelled \<^verbatim>\<open>column_level\<close>. Only columns
  of strings are given to \<open>dummies_1d\<close>.
\<close>

fun dummies_1d :: "string \<times> column \<Rightarrow> (string \<times> column) list" where
  "dummies_1d (name, ObjCol vs) =
     map (\<lambda>l. (name @ ''_'' @ l, NumCol (map (\<lambda>v. if v = l then 1 else 0) vs))) (levels vs)"
| "dummies_1d (name, NumCol vs) = [(name, NumCol vs)]"

definition get_dummies :: "dataframe \<Rightarrow> dataframe" where
  "get_dummies df =
     (let data_to_encode = filter (\<lambda>c. is_object (snd c)) (df_columns df)
      in if data_to_encode = [] then df
         else df\<lparr>df_columns :=
                   filter (\<lambda>c. \<not> is_object (snd c)) (df_columns df)
                   @ concat (map dummies_1d data_to_encode)\<rparr>)"

text \<open>
  \<^verbatim>\<open>pd.concat([df['y_yes'], df.drop(['y_no', 'y_yes'], axis=1)], axis=1)\<close>: \<^verbatim>\<open>df['y_yes']\<close>
  is every column labelled \<open>y_yes\<close> and raises when there is none; \<^verbatim>\<open>drop\<close> raises when one
  of its labels is missing and removes every column that carries one of them.
\<close>

definition label_first :: "dataframe \<Rightarrow> py_error + dataframe" where
  "label_first df =
     (if ''y_yes'' \<notin> set (labels df) then Inl (KeyError ''y_yes'')
      else if ''y_no'' \<notin> set (labels df) then Inl (KeyError ''y_no'')
      else Inr (df\<lparr>df_columns :=
                     filter (\<lambda>c. fst c = ''y_yes'') (df_columns df)
                     @ filter (\<lambda>c. fst c \<noteq> ''y_no'' \<and> fst c \<noteq> ''y_yes'') (df_columns df)\<rparr>))"

text \<open>
  \<^verbatim>\<open>df.sample(frac=1)\<close> takes all rows in a random order: \<open>perm\<close> is the permutation of the
  positions \<open>0..<len df\<close> drawn by the generator, and the row at position \<open>k\<close> of the result
  is the row at position \<open>perm ! k\<close>. \<^verbatim>\<open>reset_index(drop=True)\<close> renumbers the rows.
\<close>

fun take_rows :: "nat list \<Rightarrow> column \<Rightarrow> column" where
  "take_rows ps (NumCol vs) = NumCol (map (\<lambda>p. vs ! p) ps)"
| "take_rows ps (ObjCol vs) = ObjCol (map (\<lambda>p. vs ! p) ps)"

definition sample_all :: "nat list \<Rightarrow> dataframe \<Rightarrow> dataframe" where
  "sample_all perm df =
     \<lparr>df_index = map (\<lambda>p. df_index df ! p) perm,
      df_columns = map (\<lambda>(k, c). (k, take_rows perm c)) (df_columns df)\<rparr>"

definition reset_index :: "dataframe \<Rightarrow> dataframe" where
  "reset_index df = df\<lparr>df_index := [0..<len df]\<rparr>"

definition toremove :: "string list" where
  "toremove = [''emp.var.rate'', ''cons.price.idx'', ''cons.conf.idx'', ''euribor3m'', ''nr.employed'']"

text \<open>The helper \<open>process\<close> of \<^verbatim>\<open>preprocessing.py\<close>.\<close>

definition process :: "nat list \<Rightarrow> dataframe \<Rightarrow> py_error + dataframe" where
  "process perm df =
     (case getitem df ''pdays'' of
        Inl e \<Rightarrow> Inl e
      | Inr pdays \<Rightarrow>
          let df1 = setitem df ''no_previous_contact'' (eq_999 pdays) in
          (case getitem df1 ''job'' of
             Inl e \<Rightarrow> Inl e
           | Inr job \<Rightarrow>
               let df2 = setitem df1 ''not_working''
                           (isin [''student'', ''retired'', ''unemployed''] job);
                   columns = filter (\<lambda>x. x \<notin> set toremove) (labels df2) in
               (case select_columns df2 columns of
                  Inl e \<Rightarrow> Inl e
                | Inr cs \<Rightarrow>
                    let df3 = df2\<lparr>df_columns := cs\<rparr>;
                        df4 = get_dummies df3 in
                    (case label_first df4 of
                       Inl e \<Rightarrow> Inl e
                     | Inr df5 \<Rightarrow> Inr (reset_index (sample_all perm df5))))))"

text \<open>
  The frame that \<open>process\<close> holds after \<^verbatim>\<open>pd.get_dummies\<close>: the same statements up to that
  line.
\<close>

definition one_hot_encoded :: "dataframe \<Rightarrow> py_error + dataframe" where
  "one_hot_encoded df =
     (case getitem df ''pdays'' of
        Inl e \<Rightarrow> Inl e
      | Inr pdays \<Rightarrow>
          let df1 = setitem df ''no_previous_contact'' (eq_999 pdays) in
          (case getitem df1 ''job'' of
             Inl e \<Rightarrow> Inl e
           | Inr job \<Rightarrow>
               let df2 = setitem df1 ''not_working''
                           (isin [''student'', ''retired'', ''unemployed''] job);
                   columns = filter (\<lambda>x. x \<notin> set toremove) (labels df2) in
               (case select_columns df2 columns of
                  Inl e \<Rightarrow> Inl e
                | Inr cs \<Rightarrow> Inr (get_dummies (df2\<lparr>df_columns := cs\<rparr>)))))"

text \<open>A permutation of the positions \<open>0..<n\<close>, as \<^verbatim>\<open>sample\<close> draws it.\<close>

definition is_permutation :: "nat list \<Rightarrow> nat \<Rightarrow> bool" where
  "is_permutation perm n = (distinct perm \<and> set perm = {0..<n})"

text \<open>
  A frame of the bank data in small, and a frame that has numeric columns \<open>y_no\<close> and
  \<open>y_yes\<close> beside the column \<open>y\<close>.
\<close>

definition bank_sample :: dataframe where
  "bank_sample =
     \<lparr>df_index = [0, 1, 2],
      df_columns =
        [(''age'', NumCol [56, 57, 37]),
         (''job'', ObjCol [''housemaid'', ''retired'', ''student'']),
         (''pdays'', NumCol [999, 6, 999]),
         (''emp.var.rate'', NumCol [11 / 10, 11 / 10, - 18 / 10]),
         (''y'', ObjCol [''no'', ''yes'', ''no''])]\<rparr>"

definition label_collision :: dataframe where
  "label_collision =
     \<lparr>df_index = [0, 1],
      df_columns =
        [(''job'', ObjCol [''admin.'', ''admin.'']),
         (''pdays'', NumCol [999, 3]),
         (''y_no'', NumCol [5, 6]),
         (''y_yes'', NumCol [7, 8]),
         (''y'', ObjCol [''no'', ''yes''])]\<rparr>"

text \<open>
  \<^verbatim>\<open>np.split(df, [a, b])\<close>: the row slices \<^verbatim>\<open>[0:a]\<close>, \<^verbatim>\<open>[a:b]\<close> and \<^verbatim>\<open>[b:]\<close>; a slice keeps the
  row labels of its rows.
\<close>

fun slice_col :: "nat \<Rightarrow> nat \<Rightarrow> column \<Rightarrow> column" where
  "slice_col st en (NumCol vs) = NumCol (take (en - st) (drop st vs))"
| "slice_col st en (ObjCol vs) = ObjCol (take (en - st) (drop st vs))"

definition slice_rows :: "nat \<Rightarrow> nat \<Rightarrow> dataframe \<Rightarrow> dataframe" where
  "slice_rows st en df =
     \<lparr>df_index = take (en - st) (drop st (df_index df)),
      df_columns = map (\<lambda>(k, c). (k, slice_col st en c)) (df_columns df)\<rparr>"

definition np_split :: "dataframe \<Rightarrow> nat \<Rightarrow> nat \<Rightarrow> dataframe \<times> dataframe \<times> dataframe" where
  "np_split df a b = (slice_rows 0 a df, slice_rows a b df, slice_rows b (len df) df)"

text \<open>
  The script: the frame read from \<^verbatim>\<open>bank-additional-full.csv\<close> is processed and split at
  \<^verbatim>\<open>int(.7*len(df))\<close> and \<^verbatim>\<open>int(.85*len(df))\<close>; the three frames are what is written to
  \<^verbatim>\<open>train.csv\<close>, \<^verbatim>\<open>validation.csv\<close> and \<^verbatim>\<open>test.csv\<close>.
\<close>

definition split_points :: "nat \<Rightarrow> nat \<times> nat" where
  "split_points n = (int_mul_double dbl_0_7 n, int_mul_double dbl_0_85 n)"

definition preprocessing_main ::
  "nat list \<Rightarrow> dataframe \<Rightarrow> py_error + dataframe \<times> dataframe \<times> dataframe" where
  "preprocessing_main perm input =
     (case process perm input of
        Inl e \<Rightarrow> Inl e
      | Inr df \<Rightarrow> Inr (np_split df (fst (split_points (len df))) (snd (split_points (len df)))))"

text \<open>The cells of row \<open>k\<close> of a frame, as strings and numbers.\<close>

datatype cell = Num rat | Str string

fun cell_at :: "nat \<Rightarrow> column \<Rightarrow> cell" where
  "cell_at k (NumCol vs) = Num (vs ! k)"
| "cell_at k (ObjCol vs) = Str (vs ! k)"

definition frame_rows :: "dataframe \<Rightarrow> (nat \<times> cell list) list" where
  "frame_rows df =
     map (\<lambda>k. (df_index df ! k, map (\<lambda>c. cell_at k (snd c)) (df_columns df))) [0..<len df]"

text \<open>
  Two frames for evaluating the split: an input of ninety rows with the columns of the bank
  data that the script reads, and a frame of three rows.
\<close>

definition ninety_rows :: dataframe where
  "ninety_rows =
     \<lparr>df_index = [0..<90],
      df_columns =
        [(''job'', ObjCol (replicate 90 ''admin.'')),
         (''pdays'', NumCol (replicate 90 999)),
         (''y'', ObjCol (''yes'' # replicate 89 ''no''))]\<rparr>"

text \<open>The numbers of rows of train, validation and test.\<close>

definition split_sizes :: "dataframe \<times> dataframe \<times> dataframe \<Rightarrow> nat \<times> nat \<times> nat" where
  "split_sizes s = (len (fst s), len (fst (snd s)), len (snd (snd s)))"

definition three_rows :: dataframe where
  "three_rows = \<lparr>df_index = [0, 1, 2], df_columns = [(''y_yes'', NumCol [0, 1, 0])]\<rparr>"

text \<open>The cells of the row at position \<open>p\<close>.\<close>

definition row_cells :: "dataframe \<Rightarrow> nat \<Rightarrow> cell list" where
  "row_cells d p = map (\<lambda>c. cell_at p (snd c)) (df_columns d)"

text \<open>
  The ground-truth merge format as the specification names it, written out as the text of
  one JSON Lines record with label \<open>d\<close> and event id \<open>e\<close>.
\<close>

definition merge_format_line :: "string \<Rightarrow> string \<Rightarrow> string" where
  "merge_format_line d e =
     ''{\"groundTruthData\": {\"data\": \"'' @ d @ ''\", \"encoding\": \"CSV\"}, ''
     @ ''\"eventMetadata\": {\"eventId\": \"'' @ e @ ''\"}, \"eventVersion\": \"0\"}''"

section \<open>Properties of the Python primitives\<close>

lemma digit_char_range: "d < 10 \<Longrightarrow> (of_char (digit_char d) :: nat) = 48 + d"
  by (simp add: digit_char_def)

lemma esc_char_plain:
  assumes "32 \<le> (of_char c :: nat)" "(of_char c :: nat) \<le> 126"
    "(of_char c :: nat) \<noteq> 34" "(of_char c :: nat) \<noteq> 92"
  shows "esc_char c = [c]"
proof -
  have ne: "\<And>d. (of_char c :: nat) \<noteq> of_char d \<Longrightarrow> c \<noteq> d" by auto
  have "c \<noteq> CHR 0x5C" "c \<noteq> CHR 0x22" "c \<noteq> CHR 0x08" "c \<noteq> CHR 0x0C"
    "c \<noteq> CHR 0x0A" "c \<noteq> CHR 0x0D" "c \<noteq> CHR 0x09"
    using assms by (auto intro!: ne)
  then show ?thesis using assms by (simp add: esc_char_def)
qed

lemma esc_digit: "d < 10 \<Longrightarrow> esc_char (digit_char d) = [digit_char d]"
  by (rule esc_char_plain) (simp_all add: digit_char_range)

lemma esc_str_nat: "concat (map esc_char (str_nat n)) = str_nat n"
proof (induction n rule: str_nat.induct)
  case (1 n)
  show ?case
  proof (cases "n < 10")
    case True
    then show ?thesis by (subst (1 2) str_nat.simps) (simp add: esc_digit)
  next
    case False
    then have "concat (map esc_char (str_nat (n div 10))) = str_nat (n div 10)"
      using 1 by simp
    moreover have "esc_char (digit_char (n mod 10)) = [digit_char (n mod 10)]"
      by (rule esc_digit) simp
    ultimately show ?thesis using False by (subst (1 2) str_nat.simps) simp
  qed
qed

lemma esc_str_int: "concat (map esc_char (str_int i)) = str_int i"
  by (simp add: str_int_def esc_str_nat esc_char_def)

lemma newline_digit: "d < 10 \<Longrightarrow> digit_char d \<noteq> newline"
proof
  assume d: "d < 10" and "digit_char d = newline"
  then have "(of_char (digit_char d) :: nat) = of_char newline" by simp
  then show False using d by (simp add: digit_char_range newline_def)
qed

lemma newline_str_nat: "newline \<notin> set (str_nat n)"
proof (induction n rule: str_nat.induct)
  case (1 n)
  show ?case
  proof (cases "n < 10")
    case True
    then show ?thesis using newline_digit[of n] by (subst str_nat.simps) auto
  next
    case False
    then have "newline \<notin> set (str_nat (n div 10))" using 1 by simp
    moreover have "digit_char (n mod 10) \<noteq> newline" by (rule newline_digit) simp
    ultimately show ?thesis using False by (subst str_nat.simps) auto
  qed
qed

lemma newline_str_int: "newline \<notin> set (str_int i)"
  by (simp add: str_int_def newline_str_nat) (simp add: newline_def)

lemma str_nat_nonempty: "str_nat n \<noteq> []"
  by (subst str_nat.simps) simp

lemma json_string_str_int: "json_string (str_int i) = CHR 0x22 # str_int i @ [CHR 0x22]"
  by (simp add: json_string_def esc_str_int)

lemma dumps_ground_truth:
  "json_dumps (JObject
            [(''groundTruthData'',
                JObject [(''data'', JString (if b then ''1'' else ''0'')),
                         (''encoding'', JString ''CSV'')]),
             (''eventMetadata'', JObject [(''eventId'', JString (str_int i))]),
             (''eventVersion'', JString ''0'')])
   = merge_format_line (if b then ''1'' else ''0'') (str_int i)"
  by (simp add: merge_format_line_def json_string_str_int)
     (simp add: json_string_def esc_char_def)

lemma newline_merge_format_line:
  "newline \<notin> set d \<Longrightarrow> newline \<notin> set e \<Longrightarrow> newline \<notin> set (merge_format_line d e)"
  by (simp add: merge_format_line_def) (simp add: newline_def)

lemma ground_truth_with_id_fst:
  "fst (ground_truth_with_id seed random g i) =
     JObject
       [(''groundTruthData'',
           JObject [(''data'', JString (if fst (random (seed i)) < dbl_0_7 then ''1'' else ''0'')),
                    (''encoding'', JString ''CSV'')]),
        (''eventMetadata'', JObject [(''eventId'', JString (str_int i))]),
        (''eventVersion'', JString ''0'')]"
  by (simp add: ground_truth_with_id_def Let_def split: prod.splits)

lemma ground_truth_records_fst:
  "fst (ground_truth_records seed random g js) =
     map (\<lambda>i. fst (ground_truth_with_id seed random g0 i)) js"
proof (induction js arbitrary: g)
  case Nil
  show ?case by simp
next
  case (Cons j js)
  have "fst (ground_truth_with_id seed random g j) = fst (ground_truth_with_id seed random g0 j)"
    by (simp only: ground_truth_with_id_fst)
  then show ?case using Cons.IH
    by (simp add: Let_def split: prod.splits) (metis fst_conv)
qed

lemma file_lines_acc_line:
  "newline \<notin> set x \<Longrightarrow>
   file_lines_acc cur (x @ newline # rest) = (cur @ x @ [newline]) # file_lines_acc [] rest"
  by (induction x arbitrary: cur) auto

lemma file_lines_acc_last:
  "newline \<notin> set x \<Longrightarrow> file_lines_acc cur x = (if cur @ x = [] then [] else [cur @ x])"
  by (induction x arbitrary: cur) auto

lemma dropWhile_absent: "c \<notin> set ys \<Longrightarrow> dropWhile (\<lambda>x. x = c) ys = ys"
  by (cases ys) auto

lemma rstrip_nl_line: "newline \<notin> set x \<Longrightarrow> rstrip_nl (x @ [newline]) = x"
proof -
  assume "newline \<notin> set x"
  then have "newline \<notin> set (rev x)"
    by simp
  then have "dropWhile (\<lambda>c. c = newline) (rev x) = rev x"
    by (rule dropWhile_absent)
  then show ?thesis by (simp add: rstrip_nl_def)
qed

lemma rstrip_nl_plain: "newline \<notin> set x \<Longrightarrow> rstrip_nl x = x"
proof -
  assume "newline \<notin> set x"
  then have "newline \<notin> set (rev x)"
    by simp
  then have "dropWhile (\<lambda>c. c = newline) (rev x) = rev x"
    by (rule dropWhile_absent)
  then show ?thesis by (simp add: rstrip_nl_def)
qed

lemma file_lines_join:
  assumes "\<And>x. x \<in> set xs \<Longrightarrow> newline \<notin> set x \<and> x \<noteq> []"
  shows "map rstrip_nl (file_lines_acc [] (py_join [newline] xs)) = xs"
  using assms
proof (induction xs)
  case Nil
  show ?case by simp
next
  case (Cons x xs)
  have x: "newline \<notin> set x" "x \<noteq> []" using Cons.prems by simp_all
  show ?case
  proof (cases xs)
    case Nil
    then show ?thesis using x by (simp add: file_lines_acc_last rstrip_nl_plain)
  next
    case (Cons y ys)
    have "map rstrip_nl (file_lines_acc [] (py_join [newline] xs)) = xs"
      using Cons.IH Cons.prems by simp
    then show ?thesis using x Cons
      by (simp add: file_lines_acc_line rstrip_nl_line)
  qed
qed

lemma upload_body:
  "s3_body (fst (upload_ground_truth seed random path stamp g))
   = py_join [newline] (map json_dumps (fst (ground_truth_records seed random g (map int [0..<180]))))"
  unfolding upload_ground_truth_def Let_def case_prod_unfold
  by (simp del: upt_rec_numeral)

section \<open>Ground-truth records\<close>

text \<open>
  C10. \<open>ground_truth_with_id\<close> is deterministic: the record it returns for an
  inference id does not depend on the state in which the call finds the random generator,
  because the generator is reseeded with the id before the label is drawn. The body uploaded
  by \<open>upload_ground_truth\<close> is therefore the same at every run and for every upload time.
\<close>

theorem ground_truth_with_id_deterministic:
  "fst (ground_truth_with_id seed random g1 i) = fst (ground_truth_with_id seed random g2 i)
   \<and> s3_body (fst (upload_ground_truth seed random path stamp1 g1))
     = s3_body (fst (upload_ground_truth seed random path stamp2 g2))"
proof
  show "fst (ground_truth_with_id seed random g1 i) = fst (ground_truth_with_id seed random g2 i)"
    by (simp only: ground_truth_with_id_fst)
next
  have "fst (ground_truth_records seed random g1 (map int [0..<180]))
      = fst (ground_truth_records seed random g2 (map int [0..<180]))"
    by (simp only: ground_truth_records_fst[where ?g0.0 = g1])
  then show "s3_body (fst (upload_ground_truth seed random path stamp1 g1))
     = s3_body (fst (upload_ground_truth seed random path stamp2 g2))"
    by (simp only: upload_body)
qed

text \<open>
  C2. For every inference id the record of \<open>ground_truth_with_id\<close> has exactly the fields
  of the ground-truth merge format: \<open>groundTruthData\<close> with \<open>data\<close> (\<open>"1"\<close> or \<open>"0"\<close>)
  and \<open>encoding\<close> (\<open>"CSV"\<close>), \<open>eventMetadata\<close> with \<open>eventId = str(inference_id)\<close>, and
  \<open>eventVersion = "0"\<close>. Its \<open>json.dumps\<close> text is one line of that format, and the body
  uploaded by \<open>upload_ground_truth\<close>, read back line by line, is the 180 records of the ids
  \<open>0..179\<close> in order.
\<close>

theorem ground_truth_record_format:
  "(\<exists>d. (d = ''1'' \<or> d = ''0'')
      \<and> fst (ground_truth_with_id seed random g i) =
          JObject [(''groundTruthData'', JObject [(''data'', JString d), (''encoding'', JString ''CSV'')]),
                   (''eventMetadata'', JObject [(''eventId'', JString (str_int i))]),
                   (''eventVersion'', JString ''0'')]
      \<and> json_dumps (fst (ground_truth_with_id seed random g i)) = merge_format_line d (str_int i))
   \<and> newline \<notin> set (json_dumps (fst (ground_truth_with_id seed random g i)))
   \<and> map rstrip_nl (file_lines (s3_body (fst (upload_ground_truth seed random path stamp g))))
       = map (\<lambda>k. json_dumps (fst (ground_truth_with_id seed random g (int k)))) [0..<180]"
proof (intro conjI)
  let ?b = "fst (random (seed i)) < dbl_0_7"
  let ?d = "if ?b then ''1'' else ''0''"
  have "(?d = ''1'' \<or> ?d = ''0'')" by simp
  moreover have "fst (ground_truth_with_id seed random g i) =
          JObject [(''groundTruthData'', JObject [(''data'', JString ?d), (''encoding'', JString ''CSV'')]),
                   (''eventMetadata'', JObject [(''eventId'', JString (str_int i))]),
                   (''eventVersion'', JString ''0'')]"
    by (rule ground_truth_with_id_fst)
  moreover have "json_dumps (fst (ground_truth_with_id seed random g i)) = merge_format_line ?d (str_int i)"
    by (simp only: ground_truth_with_id_fst dumps_ground_truth)
  ultimately show "\<exists>d. (d = ''1'' \<or> d = ''0'')
      \<and> fst (ground_truth_with_id seed random g i) =
          JObject [(''groundTruthData'', JObject [(''data'', JString d), (''encoding'', JString ''CSV'')]),
                   (''eventMetadata'', JObject [(''eventId'', JString (str_int i))]),
                   (''eventVersion'', JString ''0'')]
      \<and> json_dumps (fst (ground_truth_with_id seed random g i)) = merge_format_line d (str_int i)"
    by blast
next
  have nl: "\<And>j. newline \<notin> set (json_dumps (fst (ground_truth_with_id seed random g j)))"
  proof -
    fix j
    have "newline \<notin> set (if fst (random (seed j)) < dbl_0_7 then ''1'' else ''0'')"
      by (simp add: newline_def)
    then show "newline \<notin> set (json_dumps (fst (ground_truth_with_id seed random g j)))"
      by (simp only: ground_truth_with_id_fst dumps_ground_truth)
         (rule newline_merge_format_line, simp_all add: newline_str_int)
  qed
  show "newline \<notin> set (json_dumps (fst (ground_truth_with_id seed random g i)))"
    by (rule nl)
  have ne: "\<And>j. json_dumps (fst (ground_truth_with_id seed random g j)) \<noteq> []"
    by (simp only: ground_truth_with_id_fst dumps_ground_truth) (simp add: merge_format_line_def)
  let ?recs = "map (\<lambda>k. json_dumps (fst (ground_truth_with_id seed random g (int k)))) [0..<180]"
  have body: "s3_body (fst (upload_ground_truth seed random path stamp g)) = py_join [newline] ?recs"
    by (simp only: upload_body ground_truth_records_fst[where ?g0.0 = g] map_map o_def)
  have "map rstrip_nl (file_lines_acc [] (py_join [newline] ?recs)) = ?recs"
  proof (rule file_lines_join)
    fix x
    assume "x \<in> set ?recs"
    then have "x \<in> (\<lambda>k. json_dumps (fst (ground_truth_with_id seed random g (int k)))) ` set [0..<180]"
      by (simp only: set_map)
    then obtain k where "x = json_dumps (fst (ground_truth_with_id seed random g (int k)))"
      by (rule imageE)
    then show "newline \<notin> set x \<and> x \<noteq> []" using nl ne by simp
  qed
  then show "map rstrip_nl (file_lines (s3_body (fst (upload_ground_truth seed random path stamp g)))) = ?recs"
    by (simp only: body file_lines_def)
qed

section \<open>The traffic-generation worker\<close>

lemma run_step_set:
  assumes "terminate_event w"
  shows "terminate_event (run_step ie_init (invoke_endpoint_step fl ep remote) w)"
    and "invocations (run_step ie_init (invoke_endpoint_step fl ep remote) w)
           + pending (run_step ie_init (invoke_endpoint_step fl ep remote) w)
         \<le> invocations w + pending w"
    and "steps_left (run_step ie_init (invoke_endpoint_step fl ep remote) w) \<le> steps_left w - 1"
  using assms
  by (auto simp: run_step_def invoke_endpoint_step_def invocations_def pending_def steps_left_def
      split: thread_pc.splits ie_pc.splits option.splits list.splits outcome.splits if_splits)

lemma terminate_idem:
  "terminate_event w \<Longrightarrow> terminate w = w"
  by (simp add: terminate_def)

lemma exec_set:
  assumes "terminate_event w"
  shows "terminate_event (exec ie_init (invoke_endpoint_step fl ep remote) ts w)
     \<and> invocations (exec ie_init (invoke_endpoint_step fl ep remote) ts w)
           + pending (exec ie_init (invoke_endpoint_step fl ep remote) ts w)
         \<le> invocations w + pending w
     \<and> steps_left (exec ie_init (invoke_endpoint_step fl ep remote) ts w)
         \<le> steps_left w - length (filter (\<lambda>t. t = WorkerStep) ts)"
  using assms
proof (induction ts arbitrary: w)
  case Nil
  then show ?case by simp
next
  case (Cons t ts)
  show ?case
  proof (cases t)
    case WorkerStep
    let ?w = "run_step ie_init (invoke_endpoint_step fl ep remote) w"
    note s = run_step_set[OF Cons.prems, of fl ep remote]
    have "steps_left (exec ie_init (invoke_endpoint_step fl ep remote) ts ?w)
        \<le> steps_left w - Suc (length (filter (\<lambda>t. t = WorkerStep) ts))"
      using Cons.IH[OF s(1)] s(3) by linarith
    moreover have "invocations (exec ie_init (invoke_endpoint_step fl ep remote) ts ?w)
        + pending (exec ie_init (invoke_endpoint_step fl ep remote) ts ?w)
        \<le> invocations w + pending w"
      using Cons.IH[OF s(1)] s(2) by linarith
    ultimately show ?thesis
      using WorkerStep Cons.IH[OF s(1)] by simp
  next
    case Terminate
    then show ?thesis using Cons.IH[OF Cons.prems] Cons.prems
      by (simp add: terminate_idem)
  qed
qed

lemma pending_le: "pending w \<le> 1"
  by (simp add: pending_def split: thread_pc.splits ie_pc.splits)

lemma steps_left_le: "steps_left w \<le> 8"
  by (simp add: steps_left_def split: thread_pc.splits ie_pc.splits)

lemma steps_left_0: "steps_left w = 0 \<Longrightarrow> finished w"
  by (simp add: steps_left_def finished_def split: thread_pc.splits ie_pc.splits)

lemma terminate_frame:
  "terminate_event (terminate w)" "invocations (terminate w) = invocations w"
  by (simp_all add: terminate_def invocations_def)

text \<open>
  C3. Once \<open>terminate()\<close> has set the event, the traffic-generation worker makes at most one
  further endpoint invocation, whatever the interleaving of its statements with further
  calls of \<open>terminate\<close>, and it has left its loop after at most eight of its own statements:
  both the test in \<open>invoke_endpoint\<close> and the test in \<open>run\<close> stop their loop on a set event.
\<close>

theorem terminate_stops_worker:
  "invocations (exec ie_init (invoke_endpoint_step fl ep remote) ts (terminate w))
     \<le> invocations w + 1
   \<and> (8 \<le> length (filter (\<lambda>t. t = WorkerStep) ts) \<longrightarrow>
        finished (exec ie_init (invoke_endpoint_step fl ep remote) ts (terminate w)))"
proof -
  let ?w = "exec ie_init (invoke_endpoint_step fl ep remote) ts (terminate w)"
  note e = exec_set[of "terminate w" fl ep remote ts, OF terminate_frame(1)]
  have "invocations ?w \<le> invocations (terminate w) + pending (terminate w)"
    using e by simp
  then have a: "invocations ?w \<le> invocations w + 1"
    using pending_le[of "terminate w"] by (simp add: terminate_frame)
  have "8 \<le> length (filter (\<lambda>t. t = WorkerStep) ts) \<Longrightarrow> steps_left ?w = 0"
    using e steps_left_le[of "terminate w"] by simp
  then show ?thesis using a steps_left_0 by blast
qed

theorem terminate_stops_worker_witness:
  "8 \<le> length (filter (\<lambda>t. t = WorkerStep)
        [WorkerStep, WorkerStep, Terminate, WorkerStep, WorkerStep, WorkerStep, WorkerStep,
         WorkerStep, WorkerStep])
   \<and> finished (exec ie_init (invoke_endpoint_step (Some ''1,2'') ''ep'' (\<lambda>b k. Some True))
        [WorkerStep, WorkerStep, Terminate, WorkerStep, WorkerStep, WorkerStep, WorkerStep,
         WorkerStep, WorkerStep]
        (terminate invoke_endpoint_thread))
   \<and> invocations (exec ie_init (invoke_endpoint_step (Some ''1,2'') ''ep'' (\<lambda>b k. Some True))
        [WorkerStep, WorkerStep, Terminate, WorkerStep, WorkerStep, WorkerStep, WorkerStep,
         WorkerStep, WorkerStep]
        (terminate invoke_endpoint_thread)) \<le> invocations invoke_endpoint_thread + 1"
  using terminate_stops_worker [of "Some ''1,2''" "''ep''" "\<lambda>b k. Some True"
      "[WorkerStep, WorkerStep, Terminate, WorkerStep, WorkerStep, WorkerStep, WorkerStep,
        WorkerStep, WorkerStep]" invoke_endpoint_thread]
  by simp

lemma drive_Cons_Running:
  "invoke_endpoint_step c ep remote f s = (es, Running s') \<Longrightarrow>
   drive (invoke_endpoint_step c ep remote) (f # fs) s
     = (es @ fst (drive (invoke_endpoint_step c ep remote) fs s'),
        snd (drive (invoke_endpoint_step c ep remote) fs s'))"
  by (simp add: case_prod_unfold Let_def)

lemma drive_rows:
  assumes "\<forall>body id. remote body id = Some True"
    and "ie_pc s = AtFor" and "ie_rows s = rs" and "ie_i s = k"
  shows "drive (invoke_endpoint_step content_opt ep remote) (replicate (6 * length rs + 1) False) s
         = (concat (map (row_effects ep) (enumerate k rs)), Returned)"
  using assms(2-)
proof (induction rs arbitrary: s k)
  case Nil
  then show ?case by (simp add: invoke_endpoint_step_def)
next
  case (Cons r rs)
  let ?step = "invoke_endpoint_step content_opt ep remote"
  let ?s1 = "s\<lparr>ie_pc := AtInvoke, ie_rows := rs, ie_payload := rstrip_nl r\<rparr>"
  let ?s2 = "?s1\<lparr>ie_pc := AtIncr, ie_response := True\<rparr>"
  let ?s3 = "?s2\<lparr>ie_pc := AtRead, ie_i := ie_i ?s2 + 1\<rparr>"
  let ?s4 = "?s3\<lparr>ie_pc := AtSleep\<rparr>"
  let ?s5 = "?s4\<lparr>ie_pc := AtIf\<rparr>"
  let ?s6 = "?s5\<lparr>ie_pc := AtFor\<rparr>"
  let ?rest = "replicate (6 * length rs + 1) False"
  have rep: "replicate (6 * length (r # rs) + 1) False
      = False # False # False # False # False # False # ?rest"
    by (simp add: numeral_eq_Suc)
  have st1: "?step False s = ([], Running ?s1)"
    using Cons.prems by (simp add: invoke_endpoint_step_def)
  have st2: "?step False ?s1 =
      ([InvokeEndpoint ep ''text/csv'' (rstrip_nl r) (str_int (int k))], Running ?s2)"
    using Cons.prems assms(1) by (simp add: invoke_endpoint_step_def)
  have st3: "?step False ?s2 = ([], Running ?s3)"
    by (simp add: invoke_endpoint_step_def)
  have st4: "?step False ?s3 = ([ReadBody], Running ?s4)"
    by (simp add: invoke_endpoint_step_def)
  have st5: "?step False ?s4 = ([Sleep 1], Running ?s5)"
    by (simp add: invoke_endpoint_step_def)
  have st6: "?step False ?s5 = ([IsSet False], Running ?s6)"
    by (simp add: invoke_endpoint_step_def)
  have ih: "drive ?step ?rest ?s6 = (concat (map (row_effects ep) (enumerate (Suc k) rs)), Returned)"
    by (rule Cons.IH) (simp_all add: Cons.prems)
  have "drive ?step (replicate (6 * length (r # rs) + 1) False) s
      = (row_effects ep (k, r) @ fst (drive ?step ?rest ?s6), snd (drive ?step ?rest ?s6))"
    by (simp only: rep drive_Cons_Running[OF st1] drive_Cons_Running[OF st2]
        drive_Cons_Running[OF st3] drive_Cons_Running[OF st4] drive_Cons_Running[OF st5]
        drive_Cons_Running[OF st6] fst_conv snd_conv row_effects_def append_Nil append_Cons)
  then have "drive ?step (replicate (6 * length (r # rs) + 1) False) s
      = (row_effects ep (k, r) @ concat (map (row_effects ep) (enumerate (Suc k) rs)), Returned)"
    by (simp only: ih fst_conv snd_conv)
  moreover have "concat (map (row_effects ep) (enumerate k (r # rs)))
      = row_effects ep (k, r) @ concat (map (row_effects ep) (enumerate (Suc k) rs))"
    by simp
  ultimately show ?case by (simp only:)
qed

lemma file_lines_acc_concat: "concat (file_lines_acc cur cs) = cur @ cs"
  by (induction cs arbitrary: cur) auto

lemma file_lines_acc_rows:
  assumes "newline \<notin> set cur" and "row \<in> set (file_lines_acc cur cs)"
  shows "newline \<notin> set (rstrip_nl row) \<and> (row = rstrip_nl row @ [newline] \<or> row = rstrip_nl row)"
  using assms
proof (induction cs arbitrary: cur)
  case Nil
  then show ?case by (auto simp: rstrip_nl_plain split: if_splits)
next
  case (Cons c cs)
  show ?case
  proof (cases "c = newline")
    case True
    then have "row = cur @ [newline] \<or> row \<in> set (file_lines_acc [] cs)"
      using Cons.prems by auto
    then show ?thesis
    proof
      assume "row = cur @ [newline]"
      then show ?thesis using Cons.prems(1) by (simp add: rstrip_nl_line)
    next
      assume "row \<in> set (file_lines_acc [] cs)"
      then show ?thesis using Cons.IH[of "[]"] by simp
    qed
  next
    case False
    then have "row \<in> set (file_lines_acc (cur @ [c]) cs)" "newline \<notin> set (cur @ [c])"
      using Cons.prems by auto
    then show ?thesis using Cons.IH[of "cur @ [c]"] by blast
  qed
qed

text \<open>
  C4. A run of \<open>invoke_endpoint\<close> that is not cancelled, and whose remote calls return,
  returns after reading every line of the file in order; for the line read as number \<open>j\<close>
  (from 0) it makes exactly one remote call whose body is the line without its trailing
  line feed and whose inference id is \<open>str(j)\<close>, reads the response, sleeps one second and
  then tests the event. The lines are the file's content cut after each line feed.
\<close>

theorem invoke_endpoint_trace:
  assumes "\<forall>body id. remote body id = Some True"
  shows "drive (invoke_endpoint_step (Some content) ep remote)
           (replicate (6 * length (file_lines content) + 2) False) ie_init
         = (concat (map (row_effects ep) (enumerate 0 (file_lines content))), Returned)
    \<and> concat (file_lines content) = content
    \<and> (\<forall>row \<in> set (file_lines content).
           newline \<notin> set (rstrip_nl row) \<and> (row = rstrip_nl row @ [newline] \<or> row = rstrip_nl row))"
proof (intro conjI)
  let ?step = "invoke_endpoint_step (Some content) ep remote"
  let ?s1 = "ie_init\<lparr>ie_pc := AtFor, ie_rows := file_lines content, ie_i := 0\<rparr>"
  have st: "?step False ie_init = ([], Running ?s1)"
    by (simp add: invoke_endpoint_step_def ie_init_def)
  have rep: "replicate (6 * length (file_lines content) + 2) False
      = False # replicate (6 * length (file_lines content) + 1) False"
    by simp
  have "drive ?step (replicate (6 * length (file_lines content) + 1) False) ?s1
      = (concat (map (row_effects ep) (enumerate 0 (file_lines content))), Returned)"
    by (rule drive_rows[OF assms]) simp_all
  then show "drive ?step (replicate (6 * length (file_lines content) + 2) False) ie_init
         = (concat (map (row_effects ep) (enumerate 0 (file_lines content))), Returned)"
    by (simp only: rep drive_Cons_Running[OF st] fst_conv snd_conv append_Nil)
  show "concat (file_lines content) = content"
    by (simp add: file_lines_def file_lines_acc_concat)
  show "\<forall>row \<in> set (file_lines content).
           newline \<notin> set (rstrip_nl row) \<and> (row = rstrip_nl row @ [newline] \<or> row = rstrip_nl row)"
    using file_lines_acc_rows[of "[]"] by (simp add: file_lines_def)
qed

lemma example_trace_effects:
  "concat (map (row_effects ''ep'') (enumerate 0 (file_lines (''1,2'' @ [newline] @ ''3,4''))))
   = [InvokeEndpoint ''ep'' ''text/csv'' ''1,2'' ''0'', ReadBody, Sleep 1, IsSet False,
      InvokeEndpoint ''ep'' ''text/csv'' ''3,4'' ''1'', ReadBody, Sleep 1, IsSet False]"
  by code_simp

lemma example_trace_steps: "6 * length (file_lines (''1,2'' @ [newline] @ ''3,4'')) + 2 = 14"
  by code_simp

theorem invoke_endpoint_trace_witness:
  "(\<forall>body id. (\<lambda>b k. Some True) body id = Some True)
   \<and> drive (invoke_endpoint_step (Some (''1,2'' @ [newline] @ ''3,4'')) ''ep'' (\<lambda>b k. Some True))
        (replicate 14 False) ie_init
      = ([InvokeEndpoint ''ep'' ''text/csv'' ''1,2'' ''0'', ReadBody, Sleep 1, IsSet False,
          InvokeEndpoint ''ep'' ''text/csv'' ''3,4'' ''1'', ReadBody, Sleep 1, IsSet False],
         Returned)"
  using invoke_endpoint_trace [of "\<lambda>b k. Some True" "''1,2'' @ [newline] @ ''3,4''" "''ep''"]
  by (simp only: example_trace_effects example_trace_steps) simp

section \<open>Threads, handlers and lifecycle writes of the notebooks\<close>

text \<open>
  C5, as stated, fails: the model-quality monitoring notebook starts two worker threads,
  the traffic generator and the ground-truth generator, and both run until the clean-up cell.
\<close>

theorem two_worker_threads:
  "map_option started (notebook_exec model_quality_notebook kernel_init) = Some 2
   \<and> map_option peak (notebook_exec model_quality_notebook kernel_init) = Some 2"
  by (simp add: model_quality_notebook_def kernel_init_def)

text \<open>
  C5, amended. A notebook starts at most two worker threads: the data-quality notebook
  one, the model-quality notebook two that run at the same time, every other notebook none;
  each thread started is later asked to terminate, and no statement raises.
\<close>

theorem worker_threads_per_notebook:
  "map_option thread_summary (notebook_exec data_quality_notebook kernel_init) = Some (1, 1, [])
   \<and> map_option thread_summary (notebook_exec model_quality_notebook kernel_init)
        = Some (2, 2, [])
   \<and> map_option thread_summary (notebook_exec other_notebook kernel_init) = Some (0, 0, [])"
  by (simp add: data_quality_notebook_def model_quality_notebook_def other_notebook_def
      kernel_init_def thread_summary_def)















section \<open>The split points\<close>

lemma bit_length_upper: "p < 2 ^ bit_length p"
proof (induction p rule: bit_length.induct)
  case (1 n)
  show ?case
  proof (cases "n = 0")
    case True
    then show ?thesis by (subst bit_length.simps) simp
  next
    case False
    then have "n div 2 < 2 ^ bit_length (n div 2)" using 1 by simp
    then have "n < 2 * 2 ^ bit_length (n div 2)" by linarith
    then show ?thesis using False by (subst bit_length.simps) simp
  qed
qed

lemma bit_length_lower: "0 < p \<Longrightarrow> 2 ^ (bit_length p - 1) \<le> p"
proof (induction p rule: bit_length.induct)
  case (1 n)
  then have n: "n \<noteq> 0" by simp
  show ?case
  proof (cases "n div 2 = 0")
    case True
    then have "bit_length (n div 2) = 0" by (subst bit_length.simps) simp
    then have "bit_length n = 1" using n by (subst bit_length.simps) simp
    then show ?thesis using n by simp
  next
    case False
    then have ih: "2 ^ (bit_length (n div 2) - 1) \<le> n div 2" using 1 n by simp
    have pos: "0 < bit_length (n div 2)" using False by (subst bit_length.simps) simp
    have "bit_length n = Suc (bit_length (n div 2))" using n by (subst bit_length.simps) simp
    then have "(2::nat) ^ (bit_length n - 1) = 2 * 2 ^ (bit_length (n div 2) - 1)"
      using pos by (cases "bit_length (n div 2)") simp_all
    then show ?thesis using ih by linarith
  qed
qed

lemma bit_length_le: "p < 2 ^ j \<Longrightarrow> bit_length p \<le> j"
proof (rule ccontr)
  assume p: "p < 2 ^ j" and "\<not> bit_length p \<le> j"
  then have j: "j \<le> bit_length p - 1" and pos: "0 < p"
    by (auto simp: bit_length.simps[of p] split: if_splits)
  have "(2::nat) ^ j \<le> 2 ^ (bit_length p - 1)" using j by (rule power_increasing) simp
  then show False using bit_length_lower[OF pos] p by linarith
qed

lemma round_sig_err: "\<exists>e. e * 2 ^ 52 \<le> p \<and> round_sig p \<le> p + e \<and> p \<le> round_sig p + e"
proof (cases "bit_length p \<le> 53")
  case True
  then have "round_sig p = p" by (simp add: round_sig_def)
  then show ?thesis by (intro exI[of _ 0]) simp
next
  case False
  define k where "k = bit_length p - 53"
  define q where "q = p div 2 ^ k"
  define r where "r = p mod 2 ^ k"
  have pos: "0 < p" using False by (auto simp: bit_length.simps[of p] split: if_splits)
  have "bit_length p - 1 = k + 52" using False by (simp add: k_def)
  then have "(2::nat) ^ (k + 52) \<le> p" using bit_length_lower[OF pos] by simp
  then have e: "(2::nat) ^ k * 2 ^ 52 \<le> p" by (simp add: power_add)
  have p: "p = q * 2 ^ k + r" unfolding q_def r_def by (rule div_mult_mod_eq[symmetric])
  have r: "r < 2 ^ k" by (simp add: r_def)
  have "round_sig p = q * 2 ^ k \<or> round_sig p = (q + 1) * 2 ^ k"
    using False by (simp add: round_sig_def Let_def k_def q_def)
  then have "round_sig p \<le> p + 2 ^ k \<and> p \<le> round_sig p + 2 ^ k"
    using p r by (auto simp: algebra_simps)
  then show ?thesis using e by blast
qed

lemma round_sig_small: "n < 2 ^ 53 \<Longrightarrow> round_sig n = n"
  by (simp add: round_sig_def bit_length_le)

lemma split_point_0_7:
  assumes "n < 2 ^ 47"
  shows "10 * int_mul_double dbl_0_7 n \<le> 7 * n \<and> 7 * n \<le> 10 * (int_mul_double dbl_0_7 n + 1)"
proof -
  define p where "p = dbl_0_7 * n"
  define A where "A = round_sig p div 2 ^ 53"
  have n53: "n < 2 ^ 53" using assms by simp
  have A: "int_mul_double dbl_0_7 n = A"
    by (simp add: int_mul_double_def A_def p_def round_sig_small[OF n53])
  obtain e where e: "e * 2 ^ 52 \<le> p" "round_sig p \<le> p + e" "p \<le> round_sig p + e"
    using round_sig_err[of p] by blast
  have p10: "10 * p + 4 * n = 7 * 2 ^ 53 * n" by (simp add: p_def dbl_0_7_def)
  have lo: "A * 2 ^ 53 \<le> round_sig p" by (simp add: A_def)
  have hi: "round_sig p < (A + 1) * 2 ^ 53"
    using div_less_iff_less_mult[of "2 ^ 53" "round_sig p" "A + 1"] by (simp add: A_def)
  have e14: "10 * e \<le> 14 * n"
  proof -
    have "10 * e * 2 ^ 52 \<le> 10 * p" using e(1) by simp
    also have "\<dots> \<le> 7 * 2 ^ 53 * n" using p10 by linarith
    also have "\<dots> = 14 * n * 2 ^ 52" by simp
    finally show ?thesis by simp
  qed
  have n': "18 * n < 2 ^ 53" using assms by simp
  have "10 * (A * 2 ^ 53) \<le> 7 * 2 ^ 53 * n + 10 * n"
    using lo e(2) p10 e14 by linarith
  then have "10 * A * 2 ^ 53 < (7 * n + 1) * 2 ^ 53" using n' by (simp add: algebra_simps)
  then have "10 * A < 7 * n + 1" by simp
  moreover have "7 * 2 ^ 53 * n < 10 * ((A + 1) * 2 ^ 53) + 18 * n"
    using hi e(3) p10 e14 by linarith
  then have "7 * n * 2 ^ 53 < (10 * (A + 1) + 1) * 2 ^ 53" using n' by (simp add: algebra_simps)
  then have "7 * n < 10 * (A + 1) + 1" by simp
  ultimately show ?thesis using A by simp
qed

lemma split_point_0_85:
  assumes "n < 2 ^ 47"
  shows "20 * int_mul_double dbl_0_85 n \<le> 17 * n \<and> 17 * n \<le> 20 * (int_mul_double dbl_0_85 n + 1)"
proof -
  define p where "p = dbl_0_85 * n"
  define A where "A = round_sig p div 2 ^ 53"
  have n53: "n < 2 ^ 53" using assms by simp
  have A: "int_mul_double dbl_0_85 n = A"
    by (simp add: int_mul_double_def A_def p_def round_sig_small[OF n53])
  obtain e where e: "e * 2 ^ 52 \<le> p" "round_sig p \<le> p + e" "p \<le> round_sig p + e"
    using round_sig_err[of p] by blast
  have p20: "20 * p + 4 * n = 17 * 2 ^ 53 * n" by (simp add: p_def dbl_0_85_def)
  have lo: "A * 2 ^ 53 \<le> round_sig p" by (simp add: A_def)
  have hi: "round_sig p < (A + 1) * 2 ^ 53"
    using div_less_iff_less_mult[of "2 ^ 53" "round_sig p" "A + 1"] by (simp add: A_def)
  have e34: "20 * e \<le> 34 * n"
  proof -
    have "20 * e * 2 ^ 52 \<le> 20 * p" using e(1) by simp
    also have "\<dots> \<le> 17 * 2 ^ 53 * n" using p20 by linarith
    also have "\<dots> = 34 * n * 2 ^ 52" by simp
    finally show ?thesis by simp
  qed
  have n': "38 * n < 2 ^ 53" using assms by simp
  have "20 * (A * 2 ^ 53) \<le> 17 * 2 ^ 53 * n + 30 * n"
    using lo e(2) p20 e34 by linarith
  then have "20 * A * 2 ^ 53 < (17 * n + 1) * 2 ^ 53" using n' by (simp add: algebra_simps)
  then have "20 * A < 17 * n + 1" by simp
  moreover have "17 * 2 ^ 53 * n < 20 * ((A + 1) * 2 ^ 53) + 38 * n"
    using hi e(3) p20 e34 by linarith
  then have "17 * n * 2 ^ 53 < (20 * (A + 1) + 1) * 2 ^ 53" using n' by (simp add: algebra_simps)
  then have "17 * n < 20 * (A + 1) + 1" by simp
  ultimately show ?thesis using A by simp
qed

lemma split_points_ordered:
  assumes "n < 2 ^ 47"
  shows "fst (split_points n) \<le> snd (split_points n) \<and> snd (split_points n) \<le> n"
  using split_point_0_7[OF assms] split_point_0_85[OF assms]
  by (simp add: split_points_def)

section \<open>The split into train, validation and test\<close>

lemma cell_at_slice:
  "k < en - st \<Longrightarrow> en \<le> col_len c \<Longrightarrow> cell_at k (slice_col st en c) = cell_at (st + k) c"
  by (cases c) simp_all

lemma frame_rows_slice:
  assumes "aligned df" and "st \<le> en" and "en \<le> len df"
  shows "frame_rows (slice_rows st en df) = take (en - st) (drop st (frame_rows df))"
proof (rule nth_equalityI)
  show "length (frame_rows (slice_rows st en df)) = length (take (en - st) (drop st (frame_rows df)))"
    using assms by (simp add: frame_rows_def slice_rows_def len_def)
next
  fix k
  assume "k < length (frame_rows (slice_rows st en df))"
  then have k: "k < en - st"
    using assms by (simp add: frame_rows_def slice_rows_def len_def)
  have cols: "\<And>c. c \<in> set (df_columns df) \<Longrightarrow> en \<le> col_len (snd c)"
    using assms(1,3) by (auto simp: aligned_def list_all_iff)
  have "map (\<lambda>c. cell_at k (snd c)) (df_columns (slice_rows st en df))
      = map (\<lambda>c. cell_at (st + k) (snd c)) (df_columns df)"
    using k cols by (auto simp: slice_rows_def cell_at_slice)
  moreover have "df_index (slice_rows st en df) ! k = df_index df ! (st + k)"
    using k assms by (simp add: slice_rows_def len_def)
  ultimately show "frame_rows (slice_rows st en df) ! k = take (en - st) (drop st (frame_rows df)) ! k"
    using k assms by (simp add: frame_rows_def slice_rows_def len_def)
qed

lemma three_slices:
  assumes "a \<le> b" and "b \<le> length xs"
  shows "take (a - 0) (drop 0 xs) @ take (b - a) (drop a xs) @ take (length xs - b) (drop b xs) = xs"
proof -
  have "take (b - a) (drop a xs) @ drop b xs = drop a xs"
    using assms by (metis add_diff_inverse_nat append_take_drop_id drop_drop not_less add.commute)
  then show ?thesis by simp
qed


lemma len_slice: "st \<le> en \<Longrightarrow> en \<le> len df \<Longrightarrow> len (slice_rows st en df) = en - st"
  by (simp add: len_def slice_rows_def)

lemma index_slices_disjoint:
  assumes "distinct xs" and "a \<le> b"
  shows "set (take (a - 0) (drop 0 xs)) \<inter> set (take (b - a) (drop a xs)) = {}"
    and "set (take (a - 0) (drop 0 xs)) \<inter> set (take (c - b) (drop b xs)) = {}"
    and "set (take (b - a) (drop a xs)) \<inter> set (take (c - b) (drop b xs)) = {}"
proof -
  have 1: "set (take a xs) \<inter> set (drop a xs) = {}"
    using assms(1) by (metis append_take_drop_id distinct_append)
  have 2: "set (take b xs) \<inter> set (drop b xs) = {}"
    using assms(1) by (metis append_take_drop_id distinct_append)
  have 3: "set (take (b - a) (drop a xs)) \<subseteq> set (drop a xs)" by (rule set_take_subset)
  have 4: "set (take (c - b) (drop b xs)) \<subseteq> set (drop b xs)" by (rule set_take_subset)
  have 5: "set (drop b xs) \<subseteq> set (drop a xs)" using assms(2) by (rule set_drop_subset_set_drop)
  have 6: "set (take (b - a) (drop a xs)) \<subseteq> set (take b xs)"
    using assms(2) by (metis le_add_diff_inverse set_take_subset take_add set_append Un_upper2 subset_trans order_refl)
  show "set (take (a - 0) (drop 0 xs)) \<inter> set (take (b - a) (drop a xs)) = {}"
    using 1 3 by auto
  show "set (take (a - 0) (drop 0 xs)) \<inter> set (take (c - b) (drop b xs)) = {}"
    using 1 4 5 by auto
  show "set (take (b - a) (drop a xs)) \<inter> set (take (c - b) (drop b xs)) = {}"
    using 2 4 6 by auto
qed

lemma split_points_90: "split_points 90 = (62, 76)"
  by (simp add: split_points_def int_mul_double_def round_sig_def dbl_0_7_def dbl_0_85_def
      bit_length.simps Let_def)

lemma split_points_3: "split_points 3 = (2, 2)"
  by (simp add: split_points_def int_mul_double_def round_sig_def dbl_0_7_def dbl_0_85_def
      bit_length.simps Let_def)

lemma np_split_rows:
  assumes "aligned df" and "distinct (df_index df)" and "len df < 2 ^ 47"
    and "np_split df (fst (split_points (len df))) (snd (split_points (len df)))
           = (train, validation, test)"
  shows "frame_rows train @ frame_rows validation @ frame_rows test = frame_rows df
    \<and> set (df_index train) \<inter> set (df_index validation) = {}
    \<and> set (df_index train) \<inter> set (df_index test) = {}
    \<and> set (df_index validation) \<inter> set (df_index test) = {}
    \<and> len train = fst (split_points (len df))
    \<and> len validation = snd (split_points (len df)) - fst (split_points (len df))
    \<and> len test = len df - snd (split_points (len df))
    \<and> 10 * fst (split_points (len df)) \<le> 7 * len df
    \<and> 7 * len df \<le> 10 * (fst (split_points (len df)) + 1)
    \<and> 20 * snd (split_points (len df)) \<le> 17 * len df
    \<and> 17 * len df \<le> 20 * (snd (split_points (len df)) + 1)"
proof -
  define a where "a = fst (split_points (len df))"
  define b where "b = snd (split_points (len df))"
  have ab: "a \<le> b" "b \<le> len df"
    using split_points_ordered[OF assms(3)] by (simp_all add: a_def b_def)
  have parts: "train = slice_rows 0 a df" "validation = slice_rows a b df"
    "test = slice_rows b (len df) df"
    using assms(4) by (simp_all add: np_split_def a_def b_def)
  have n: "length (frame_rows df) = len df" by (simp add: frame_rows_def)
  have rows: "frame_rows train = take (a - 0) (drop 0 (frame_rows df))"
    "frame_rows validation = take (b - a) (drop a (frame_rows df))"
    "frame_rows test = take (length (frame_rows df) - b) (drop b (frame_rows df))"
    using ab assms(1) by (simp_all only: parts n frame_rows_slice le0 order_refl order_trans[OF ab])
  have "frame_rows train @ frame_rows validation @ frame_rows test = frame_rows df"
    unfolding rows using ab n by (intro three_slices) simp_all
  moreover have "set (df_index train) \<inter> set (df_index validation) = {}"
    "set (df_index train) \<inter> set (df_index test) = {}"
    "set (df_index validation) \<inter> set (df_index test) = {}"
    using index_slices_disjoint[OF assms(2) ab(1)]
    by (simp_all add: parts slice_rows_def)
  moreover have "len train = a" "len validation = b - a" "len test = len df - b"
    using ab by (simp_all add: parts len_slice)
  moreover have "10 * a \<le> 7 * len df \<and> 7 * len df \<le> 10 * (a + 1)"
    using split_point_0_7[OF assms(3)] by (simp add: a_def split_points_def)
  moreover have "20 * b \<le> 17 * len df \<and> 17 * len df \<le> 20 * (b + 1)"
    using split_point_0_85[OF assms(3)] by (simp add: b_def split_points_def)
  ultimately show ?thesis unfolding a_def b_def by blast
qed


text \<open>
  C9, amended. For a frame of \<open>n\<close> rows (below \<open>2^47\<close>) with distinct row labels, train,
  validation and test are a partition of its rows in order: their rows concatenated are the
  rows of the frame, their row labels are pairwise disjoint, and they have \<open>a\<close>, \<open>b - a\<close> and
  \<open>n - b\<close> rows, where \<open>a = int(.7*n)\<close> and \<open>b = int(.85*n)\<close> are computed in double arithmetic:
  \<open>0.7 n - 1 \<le> a \<le> 0.7 n\<close> and \<open>0.85 n - 1 \<le> b \<le> 0.85 n\<close>, so that \<open>a\<close> is \<open>floor(0.7 n)\<close> unless
  \<open>0.7 n\<close> is an integer, when it may be one less, and likewise \<open>b\<close>.
\<close>

theorem split_partition:
  assumes "aligned df" and "distinct (df_index df)" and "len df < 2 ^ 47"
    and "np_split df (fst (split_points (len df))) (snd (split_points (len df)))
           = (train, validation, test)"
  shows "frame_rows train @ frame_rows validation @ frame_rows test = frame_rows df
    \<and> set (df_index train) \<inter> set (df_index validation) = {}
    \<and> set (df_index train) \<inter> set (df_index test) = {}
    \<and> set (df_index validation) \<inter> set (df_index test) = {}
    \<and> len train = fst (split_points (len df))
    \<and> len validation = snd (split_points (len df)) - fst (split_points (len df))
    \<and> len test = len df - snd (split_points (len df))
    \<and> 10 * fst (split_points (len df)) \<le> 7 * len df
    \<and> 7 * len df \<le> 10 * (fst (split_points (len df)) + 1)
    \<and> 20 * snd (split_points (len df)) \<le> 17 * len df
    \<and> 17 * len df \<le> 20 * (snd (split_points (len df)) + 1)"
  by (rule np_split_rows [OF assms])

theorem split_partition_witness:
  "aligned three_rows \<and> distinct (df_index three_rows) \<and> len three_rows < 2 ^ 47
   \<and> np_split three_rows (fst (split_points (len three_rows))) (snd (split_points (len three_rows)))
       = (\<lparr>df_index = [0, 1], df_columns = [(''y_yes'', NumCol [0, 1])]\<rparr>,
          \<lparr>df_index = [], df_columns = [(''y_yes'', NumCol [])]\<rparr>,
          \<lparr>df_index = [2], df_columns = [(''y_yes'', NumCol [0])]\<rparr>)
   \<and> frame_rows \<lparr>df_index = [0, 1], df_columns = [(''y_yes'', NumCol [0, 1])]\<rparr>
       @ frame_rows \<lparr>df_index = [], df_columns = [(''y_yes'', NumCol [])]\<rparr>
       @ frame_rows \<lparr>df_index = [2], df_columns = [(''y_yes'', NumCol [0])]\<rparr>
       = frame_rows three_rows
   \<and> len \<lparr>df_index = [0, 1], df_columns = [(''y_yes'', NumCol [0, 1])]\<rparr> = 2"
proof -
  have n: "len three_rows = 3" by (simp add: three_rows_def len_def)
  have w: "aligned three_rows" by (simp add: three_rows_def aligned_def len_def)
  have d: "distinct (df_index three_rows)" by (simp add: three_rows_def)
  have l: "len three_rows < 2 ^ 47" by (simp add: n)
  have s: "np_split three_rows (fst (split_points (len three_rows))) (snd (split_points (len three_rows)))
       = (\<lparr>df_index = [0, 1], df_columns = [(''y_yes'', NumCol [0, 1])]\<rparr>,
          \<lparr>df_index = [], df_columns = [(''y_yes'', NumCol [])]\<rparr>,
          \<lparr>df_index = [2], df_columns = [(''y_yes'', NumCol [0])]\<rparr>)"
    by (simp only: n split_points_3 fst_conv snd_conv)
       (simp add: np_split_def slice_rows_def three_rows_def len_def)
  show ?thesis
    using split_partition [OF w d l s] w d l s by (simp only: n split_points_3 fst_conv snd_conv)
qed

section \<open>The helper \<open>process\<close>\<close>

lemma process_stages:
  "process perm df =
     (case one_hot_encoded df of
        Inl e \<Rightarrow> Inl e
      | Inr df4 \<Rightarrow>
          (case label_first df4 of
             Inl e \<Rightarrow> Inl e
           | Inr df5 \<Rightarrow> Inr (reset_index (sample_all perm df5))))"
  by (simp add: process_def one_hot_encoded_def Let_def split: sum.splits)

lemma labels_sample_all: "labels (sample_all perm df) = labels df"
  by (simp add: labels_def sample_all_def case_prod_unfold o_def)

lemma labels_reset_index: "labels (reset_index df) = labels df"
  by (simp add: labels_def reset_index_def)

lemma map_fst_filter_label:
  "map fst (filter (\<lambda>c. fst c = x) cs) = replicate (count_list (map fst cs) x) x"
  by (induction cs) auto

lemma label_first_Inr:
  assumes "label_first df = Inr df5"
  shows "df_columns df5 = filter (\<lambda>c. fst c = ''y_yes'') (df_columns df)
                     @ filter (\<lambda>c. fst c \<noteq> ''y_no'' \<and> fst c \<noteq> ''y_yes'') (df_columns df)
         \<and> df_index df5 = df_index df"
  using assms by (auto simp: label_first_def split: if_splits)

lemma labels_label_first:
  assumes "label_first df = Inr df5"
  shows "labels df5 = replicate (count_list (labels df) ''y_yes'') ''y_yes''
           @ filter (\<lambda>l. l \<noteq> ''y_no'' \<and> l \<noteq> ''y_yes'') (labels df)"
  using label_first_Inr[OF assms]
  by (simp add: labels_def filter_map o_def map_fst_filter_label)

lemma count_list_replicate_filter:
  "count_list (replicate k x @ filter (\<lambda>l. l \<noteq> y \<and> l \<noteq> x) ls) x = k"
  by (induction k) (simp_all add: count_list_0_iff)

text \<open>
  C8, as stated, fails: a frame with numeric columns \<open>y_no\<close> and \<open>y_yes\<close> beside the
  categorical column \<open>y\<close> has each of these labels twice after \<^verbatim>\<open>get_dummies\<close>, and the frame
  returned by \<open>process\<close> then has two columns \<open>y_yes\<close>.
\<close>

theorem y_yes_twice:
  "''y_no'' \<in> set (labels label_collision) \<and> ''y_yes'' \<in> set (labels label_collision)
   \<and> map_sum id labels (one_hot_encoded label_collision)
       = Inr [''pdays'', ''y_no'', ''y_yes'', ''no_previous_contact'', ''not_working'',
              ''job_admin.'', ''y_no'', ''y_yes'']
   \<and> map_sum id labels (process [1, 0] label_collision)
       = Inr [''y_yes'', ''y_yes'', ''pdays'', ''no_previous_contact'', ''not_working'',
              ''job_admin.'']"
  by (simp add: label_collision_def process_def one_hot_encoded_def getitem_def setitem_def labels_def
      toremove_def get_dummies_def levels_def label_first_def sample_all_def reset_index_def
      Let_def)

text \<open>
  C8, amended. When the one-hot encoding of the input contains \<open>y_no\<close> and \<open>y_yes\<close>,
  \<open>process\<close> returns a frame whose first column is \<open>y_yes\<close>, which has no column \<open>y_no\<close>, and
  which has \<open>y_yes\<close> as often as the encoding has it: exactly once when the encoding has a
  single column of that label.
\<close>

theorem label_first_column:
  assumes "one_hot_encoded df = Inr enc"
    and "''y_no'' \<in> set (labels enc)" and "''y_yes'' \<in> set (labels enc)"
  shows "\<exists>out. process perm df = Inr out
           \<and> hd (labels out) = ''y_yes''
           \<and> ''y_no'' \<notin> set (labels out)
           \<and> count_list (labels out) ''y_yes'' = count_list (labels enc) ''y_yes''"
proof -
  obtain df5 where l: "label_first enc = Inr df5"
    using assms(2,3) by (simp add: label_first_def)
  let ?out = "reset_index (sample_all perm df5)"
  have p: "process perm df = Inr ?out"
    by (simp add: process_stages assms(1) l)
  have lab: "labels ?out = replicate (count_list (labels enc) ''y_yes'') ''y_yes''
           @ filter (\<lambda>l. l \<noteq> ''y_no'' \<and> l \<noteq> ''y_yes'') (labels enc)"
    by (simp add: labels_reset_index labels_sample_all labels_label_first[OF l])
  have "count_list (labels enc) ''y_yes'' \<noteq> 0"
    using assms(3) count_list_0_iff by metis
  then have pos: "0 < count_list (labels enc) ''y_yes''"
    by simp
  then have "hd (labels ?out) = ''y_yes''"
    unfolding lab by (cases "count_list (labels enc) ''y_yes''") simp_all
  moreover have "''y_no'' \<notin> set (labels ?out)"
    unfolding lab by auto
  moreover have "count_list (labels ?out) ''y_yes'' = count_list (labels enc) ''y_yes''"
    unfolding lab by (rule count_list_replicate_filter)
  ultimately show ?thesis using p by blast
qed

lemma one_hot_bank_sample:
  "one_hot_encoded bank_sample =
     Inr \<lparr>df_index = [0, 1, 2],
          df_columns =
            [(''age'', NumCol [56, 57, 37]),
             (''pdays'', NumCol [999, 6, 999]),
             (''no_previous_contact'', NumCol [1, 0, 1]),
             (''not_working'', NumCol [0, 1, 1]),
             (''job_housemaid'', NumCol [1, 0, 0]),
             (''job_retired'', NumCol [0, 1, 0]),
             (''job_student'', NumCol [0, 0, 1]),
             (''y_no'', NumCol [1, 0, 1]),
             (''y_yes'', NumCol [0, 1, 0])]\<rparr>"
  by (simp add: bank_sample_def one_hot_encoded_def getitem_def setitem_def labels_def
      toremove_def get_dummies_def levels_def Let_def)

theorem label_first_column_witness:
  "one_hot_encoded bank_sample =
     Inr \<lparr>df_index = [0, 1, 2],
          df_columns =
            [(''age'', NumCol [56, 57, 37]),
             (''pdays'', NumCol [999, 6, 999]),
             (''no_previous_contact'', NumCol [1, 0, 1]),
             (''not_working'', NumCol [0, 1, 1]),
             (''job_housemaid'', NumCol [1, 0, 0]),
             (''job_retired'', NumCol [0, 1, 0]),
             (''job_student'', NumCol [0, 0, 1]),
             (''y_no'', NumCol [1, 0, 1]),
             (''y_yes'', NumCol [0, 1, 0])]\<rparr>
   \<and> (\<exists>out. process [2, 0, 1] bank_sample = Inr out
           \<and> hd (labels out) = ''y_yes''
           \<and> ''y_no'' \<notin> set (labels out)
           \<and> count_list (labels out) ''y_yes'' = 1)"
  using label_first_column [OF one_hot_bank_sample, of "[2, 0, 1]"] one_hot_bank_sample
  by (simp add: labels_def)

section \<open>The stages of \<open>process\<close>\<close>

subsection \<open>Columns set, read and selected\<close>

lemma getitem_mem:
  "distinct (labels df) \<Longrightarrow> (k, v) \<in> set (df_columns df) \<Longrightarrow> getitem df k = Inr v"
  by (simp add: getitem_def labels_def)

lemma labels_setitem:
  "labels (setitem df name c)
     = (if name \<in> set (labels df) then labels df else labels df @ [name])"
  by (auto simp: setitem_def labels_def case_prod_unfold intro!: map_idI)

lemma distinct_setitem: "distinct (labels df) \<Longrightarrow> distinct (labels (setitem df name c))"
  by (simp add: labels_setitem)

lemma len_setitem: "len (setitem df name c) = len df"
  by (simp add: setitem_def len_def)

lemma replace_fun:
  "(\<lambda>(k, old). if k = name then (k, c) else (k, old))
     = (\<lambda>x. if fst x = name then (name, c) else x)"
  by (rule ext) (simp add: case_prod_unfold)

lemma set_map_replace:
  assumes "name \<in> fst ` set cs"
  shows "(\<lambda>x. if fst x = name then (name, c) else x) ` set cs
     = {x \<in> set cs. fst x \<noteq> name} \<union> {(name, c)}"
proof (rule set_eqI)
  fix y
  show "y \<in> (\<lambda>x. if fst x = name then (name, c) else x) ` set cs
        \<longleftrightarrow> y \<in> {x \<in> set cs. fst x \<noteq> name} \<union> {(name, c)}"
  proof
    assume "y \<in> (\<lambda>x. if fst x = name then (name, c) else x) ` set cs"
    then obtain x where x: "x \<in> set cs" "y = (if fst x = name then (name, c) else x)"
      by (rule imageE)
    show "y \<in> {x \<in> set cs. fst x \<noteq> name} \<union> {(name, c)}"
    proof (cases "fst x = name")
      case True
      then show ?thesis using x by simp
    next
      case False
      then show ?thesis using x by simp
    qed
  next
    assume y: "y \<in> {x \<in> set cs. fst x \<noteq> name} \<union> {(name, c)}"
    show "y \<in> (\<lambda>x. if fst x = name then (name, c) else x) ` set cs"
    proof (cases "y = (name, c)")
      case True
      obtain x where "x \<in> set cs" "fst x = name" using assms by (auto simp: image_iff)
      then show ?thesis using True by (intro image_eqI[of _ _ x]) simp_all
    next
      case False
      then have "y \<in> set cs" "fst y \<noteq> name" using y by simp_all
      then show ?thesis by (intro image_eqI[of _ _ y]) simp_all
    qed
  qed
qed

lemma set_setitem:
  "set (df_columns (setitem df name c))
     = {x \<in> set (df_columns df). fst x \<noteq> name} \<union> {(name, c)}"
proof (cases "name \<in> set (labels df)")
  case True
  then have "name \<in> fst ` set (df_columns df)" by (simp add: labels_def)
  then have "(\<lambda>x. if fst x = name then (name, c) else x) ` set (df_columns df)
     = {x \<in> set (df_columns df). fst x \<noteq> name} \<union> {(name, c)}"
    by (rule set_map_replace)
  moreover have "df_columns (setitem df name c)
     = map (\<lambda>x. if fst x = name then (name, c) else x) (df_columns df)"
    using True by (simp add: setitem_def replace_fun)
  ultimately show ?thesis by (simp only: set_map)
next
  case False
  then have "\<And>x. x \<in> set (df_columns df) \<Longrightarrow> fst x \<noteq> name"
    by (auto simp: labels_def)
  then show ?thesis using False by (auto simp: setitem_def)
qed

lemma aligned_setitem:
  "aligned df \<Longrightarrow> col_len c = len df \<Longrightarrow> aligned (setitem df name c)"
  using set_setitem[of df name c]
  by (auto simp: aligned_def list_all_iff len_setitem)

lemma filter_label_single:
  "distinct (map fst cs) \<Longrightarrow> x \<in> set cs \<Longrightarrow> filter (\<lambda>c. fst c = fst x) cs = [x]"
proof (induction cs)
  case Nil
  then show ?case by simp
next
  case (Cons c cs)
  show ?case
  proof (cases "x = c")
    case True
    have "fst c \<notin> fst ` set cs" using Cons.prems(1) by simp
    then have "\<And>d. d \<in> set cs \<Longrightarrow> fst d \<noteq> fst c" by (metis imageI)
    then have "filter (\<lambda>d. fst d = fst c) cs = []" by (simp add: filter_empty_conv)
    then show ?thesis using True by simp
  next
    case False
    then have x: "x \<in> set cs" using Cons.prems(2) by simp
    then have "fst c \<noteq> fst x" using Cons.prems(1) by (auto simp: image_iff)
    then show ?thesis using Cons.IH x Cons.prems(1) by simp
  qed
qed

lemma select_columns_sublist:
  assumes "distinct (labels df)" and "set xs \<subseteq> set (df_columns df)"
  shows "select_columns df (map fst xs) = Inr xs"
  using assms(2)
proof (induction xs)
  case Nil
  show ?case by simp
next
  case (Cons x xs)
  have x: "x \<in> set (df_columns df)" using Cons.prems by simp
  then have "fst x \<in> set (labels df)" by (simp add: labels_def)
  moreover have "filter (\<lambda>c. fst c = fst x) (df_columns df) = [x]"
    using assms(1) x by (simp add: filter_label_single labels_def)
  moreover have "select_columns df (map fst xs) = Inr xs" using Cons by simp
  ultimately show ?case by simp
qed

lemma select_columns_filter:
  assumes "distinct (labels df)"
  shows "select_columns df (filter P (labels df))
           = Inr (filter (\<lambda>c. P (fst c)) (df_columns df))"
proof -
  have "filter P (labels df) = map fst (filter (\<lambda>c. P (fst c)) (df_columns df))"
    by (simp add: labels_def filter_map o_def)
  then show ?thesis using select_columns_sublist[OF assms, of "filter (\<lambda>c. P (fst c)) (df_columns df)"]
    by simp
qed

subsection \<open>One-hot encoding\<close>

lemma set_insort_str: "set (insort_str v ls) = insert v (set ls)"
  by (induction ls) auto

lemma set_levels: "set (levels vs) = set vs"
proof -
  have "\<And>xs. set (foldr insort_str xs []) = set xs"
  proof -
    fix xs show "set (foldr insort_str xs []) = set xs"
      by (induction xs) (simp_all add: set_insort_str)
  qed
  then show ?thesis by (simp add: levels_def)
qed

lemma len_get_dummies: "len (get_dummies df) = len df"
  by (simp add: get_dummies_def len_def Let_def)

lemma set_get_dummies:
  "set (df_columns (get_dummies df))
     = {c \<in> set (df_columns df). \<not> is_object (snd c)}
       \<union> (\<Union>c \<in> {c \<in> set (df_columns df). is_object (snd c)}. set (dummies_1d c))"
proof (cases "filter (\<lambda>c. is_object (snd c)) (df_columns df) = []")
  case True
  then have "\<And>c. c \<in> set (df_columns df) \<Longrightarrow> \<not> is_object (snd c)"
    by (simp add: filter_empty_conv)
  then show ?thesis using True by (auto simp: get_dummies_def)
next
  case False
  then show ?thesis by (auto simp: get_dummies_def Let_def)
qed

lemma dummies_1d_object:
  "set (dummies_1d (name, ObjCol vs))
     = (\<lambda>l. (name @ ''_'' @ l, NumCol (map (\<lambda>v. if v = l then 1 else 0) vs))) ` set vs"
  by (simp add: set_levels)

lemma get_dummies_numeric:
  "c \<in> set (df_columns (get_dummies df)) \<Longrightarrow> \<not> is_object (snd c)"
proof -
  assume "c \<in> set (df_columns (get_dummies df))"
  then consider "c \<in> set (df_columns df)" "\<not> is_object (snd c)"
    | d where "d \<in> set (df_columns df)" "is_object (snd d)" "c \<in> set (dummies_1d d)"
    unfolding set_get_dummies by auto
  then show ?thesis
  proof cases
    case 1
    then show ?thesis by simp
  next
    case 2
    obtain name col where d: "d = (name, col)" by (cases d)
    then obtain vs where "col = ObjCol vs" using 2(2) by (cases col) simp_all
    then show ?thesis using 2(3) d by (auto simp: dummies_1d_object)
  qed
qed

lemma aligned_get_dummies:
  assumes "aligned df"
  shows "aligned (get_dummies df)"
proof -
  have "\<And>c. c \<in> set (df_columns (get_dummies df)) \<Longrightarrow> col_len (snd c) = len df"
  proof -
    fix c
    assume "c \<in> set (df_columns (get_dummies df))"
    then consider "c \<in> set (df_columns df)"
      | d where "d \<in> set (df_columns df)" "is_object (snd d)" "c \<in> set (dummies_1d d)"
      unfolding set_get_dummies by auto
    then show "col_len (snd c) = len df"
    proof cases
      case 1
      then show ?thesis using assms by (auto simp: aligned_def list_all_iff)
    next
      case 2
      obtain name col where d: "d = (name, col)" by (cases d)
      then obtain vs where col: "col = ObjCol vs" using 2(2) by (cases col) simp_all
      have "length vs = len df" using assms 2(1) d col by (auto simp: aligned_def list_all_iff)
      then show ?thesis using 2(3) d col by (auto simp: dummies_1d_object)
    qed
  qed
  then show ?thesis by (simp add: aligned_def list_all_iff len_get_dummies)
qed

subsection \<open>Label first, shuffle\<close>

lemma set_label_first:
  assumes "label_first df = Inr df5"
  shows "set (df_columns df5) = {c \<in> set (df_columns df). fst c \<noteq> ''y_no''}"
proof -
  have "df_columns df5 = filter (\<lambda>c. fst c = ''y_yes'') (df_columns df)
                     @ filter (\<lambda>c. fst c \<noteq> ''y_no'' \<and> fst c \<noteq> ''y_yes'') (df_columns df)"
    using label_first_Inr[OF assms] by simp
  then show ?thesis by auto
qed

lemma len_label_first: "label_first df = Inr df5 \<Longrightarrow> len df5 = len df"
  using label_first_Inr[of df df5] by (simp add: len_def)

lemma aligned_label_first:
  assumes "label_first df = Inr df5" and "aligned df"
  shows "aligned df5"
  using assms(2) set_label_first[OF assms(1)] len_label_first[OF assms(1)]
  by (auto simp: aligned_def list_all_iff)

lemma columns_shuffled:
  "df_columns (reset_index (sample_all perm d))
     = map (\<lambda>c. (fst c, take_rows perm (snd c))) (df_columns d)"
  by (simp add: reset_index_def sample_all_def case_prod_unfold)

lemma len_shuffled: "len (reset_index (sample_all perm d)) = length perm"
  by (simp add: reset_index_def sample_all_def len_def)

lemma index_shuffled: "df_index (reset_index (sample_all perm d)) = [0..<length perm]"
  by (simp add: reset_index_def sample_all_def len_def)

lemma col_len_take_rows: "col_len (take_rows perm c) = length perm"
  by (cases c) simp_all

lemma aligned_shuffled: "aligned (reset_index (sample_all perm d))"
  by (simp add: aligned_def list_all_iff columns_shuffled len_shuffled col_len_take_rows)

lemma mem_shuffled:
  "(k, c) \<in> set (df_columns d)
     \<Longrightarrow> (k, take_rows perm c) \<in> set (df_columns (reset_index (sample_all perm d)))"
  by (force simp: columns_shuffled)

lemma numeric_take_rows: "is_object (take_rows perm c) = is_object c"
  by (cases c) simp_all

lemma cell_at_take_rows: "k < length perm \<Longrightarrow> cell_at k (take_rows perm c) = cell_at (perm ! k) c"
  by (cases c) simp_all

lemma rows_frame: "map snd (frame_rows d) = map (row_cells d) [0..<len d]"
  by (simp add: frame_rows_def row_cells_def o_def)

lemma rows_shuffled:
  "map snd (frame_rows (reset_index (sample_all perm d))) = map (row_cells d) perm"
proof -
  have "map snd (frame_rows (reset_index (sample_all perm d)))
      = map (\<lambda>k. row_cells d (perm ! k)) [0..<length perm]"
    by (simp add: rows_frame len_shuffled)
       (simp add: row_cells_def columns_shuffled o_def cell_at_take_rows)
  also have "\<dots> = map (row_cells d) (map (\<lambda>k. perm ! k) [0..<length perm])"
    by (simp add: o_def)
  also have "\<dots> = map (row_cells d) perm"
    by (simp only: map_nth)
  finally show ?thesis .
qed

lemma mset_permutation: "is_permutation perm n \<Longrightarrow> mset perm = mset [0..<n]"
  using set_eq_iff_mset_eq_distinct[of perm "[0..<n]"]
  by (simp add: is_permutation_def)

lemma length_permutation: "is_permutation perm n \<Longrightarrow> length perm = n"
  using mset_permutation[of perm n] by (metis length_upt diff_zero size_mset)

lemma rows_shuffled_mset:
  assumes "is_permutation perm (len d)"
  shows "mset (map snd (frame_rows (reset_index (sample_all perm d))))
           = mset (map snd (frame_rows d))"
proof -
  have "mset (map (row_cells d) perm) = image_mset (row_cells d) (mset perm)" by simp
  also have "\<dots> = image_mset (row_cells d) (mset [0..<len d])"
    by (simp only: mset_permutation[OF assms])
  also have "\<dots> = mset (map (row_cells d) [0..<len d])" by simp
  finally show ?thesis by (simp only: rows_shuffled) (simp only: rows_frame)
qed

lemma identity_permutation: "is_permutation [0..<n] n"
  by (simp add: is_permutation_def)

lemma take_rows_indicator:
  assumes "\<And>p. p \<in> set perm \<Longrightarrow> p < length vs"
  shows "take_rows perm (NumCol (map f vs)) = NumCol (map (\<lambda>p. f (vs ! p)) perm)"
  using assms by simp

lemma permutation_bound: "is_permutation perm n \<Longrightarrow> p \<in> set perm \<Longrightarrow> p < n"
  by (simp add: is_permutation_def)

lemma aligned_col_len: "aligned df \<Longrightarrow> (k, c) \<in> set (df_columns df) \<Longrightarrow> col_len c = len df"
  by (auto simp: aligned_def list_all_iff)

lemma underscore_not_removed: "CHR ''_'' \<in> set s \<Longrightarrow> s \<notin> set toremove"
  by (auto simp: toremove_def)

lemma labels_shuffled: "labels (reset_index (sample_all perm d)) = labels d"
  by (simp add: labels_reset_index labels_sample_all)

text \<open>The frame after the two indicator columns have been set and the five columns removed.\<close>

lemma indicators_and_removal:
  assumes "distinct (labels df)"
    and "(''pdays'', pdays) \<in> set (df_columns df)"
    and "(''job'', job) \<in> set (df_columns df)"
  shows "one_hot_encoded df
           = Inr (get_dummies
               (setitem (setitem df ''no_previous_contact'' (eq_999 pdays)) ''not_working''
                   (isin [''student'', ''retired'', ''unemployed''] job)
                \<lparr>df_columns :=
                   filter (\<lambda>c. fst c \<notin> set toremove)
                     (df_columns
                        (setitem (setitem df ''no_previous_contact'' (eq_999 pdays))
                           ''not_working''
                           (isin [''student'', ''retired'', ''unemployed''] job)))\<rparr>))"
proof -
  let ?df1 = "setitem df ''no_previous_contact'' (eq_999 pdays)"
  let ?df2 = "setitem ?df1 ''not_working'' (isin [''student'', ''retired'', ''unemployed''] job)"
  have g1: "getitem df ''pdays'' = Inr pdays" by (rule getitem_mem[OF assms(1,2)])
  have d1: "distinct (labels ?df1)" by (rule distinct_setitem[OF assms(1)])
  have "(''job'', job) \<in> set (df_columns ?df1)"
    using assms(3) by (simp add: set_setitem)
  then have g2: "getitem ?df1 ''job'' = Inr job" by (rule getitem_mem[OF d1])
  have d2: "distinct (labels ?df2)" by (rule distinct_setitem[OF d1])
  have sel: "select_columns ?df2 (filter (\<lambda>x. x \<notin> set toremove) (labels ?df2))
           = Inr (filter (\<lambda>c. fst c \<notin> set toremove) (df_columns ?df2))"
    by (rule select_columns_filter[OF d2])
  show ?thesis
    by (simp only: one_hot_encoded_def g1 sum.case Let_def g2 sel)
qed

lemma kept_columns:
  "set (filter (\<lambda>c. fst c \<notin> set toremove)
          (df_columns (setitem (setitem df ''no_previous_contact'' X) ''not_working'' Y)))
     = {c \<in> set (df_columns df). fst c \<notin> set toremove
            \<and> fst c \<noteq> ''no_previous_contact'' \<and> fst c \<noteq> ''not_working''}
       \<union> {(''no_previous_contact'', X), (''not_working'', Y)}"
proof -
  have "''no_previous_contact'' \<notin> set toremove" "''not_working'' \<notin> set toremove"
    by (simp_all add: toremove_def)
  then show ?thesis by (auto simp: set_setitem)
qed

lemma numeric_eq_999: "\<not> is_object (eq_999 c)"
  by (cases c) simp_all

lemma numeric_isin: "\<not> is_object (isin vs c)"
  by (cases c) simp_all

lemma col_len_eq_999: "col_len (eq_999 c) = col_len c"
  by (cases c) simp_all

lemma col_len_isin: "col_len (isin vs c) = col_len c"
  by (cases c) simp_all

lemma encoded_frame:
  assumes "distinct (labels df)" and "aligned df"
    and "(''pdays'', pdays) \<in> set (df_columns df)"
    and "(''job'', job) \<in> set (df_columns df)"
  shows "\<exists>enc. one_hot_encoded df = Inr enc
    \<and> (''no_previous_contact'', eq_999 pdays) \<in> set (df_columns enc)
    \<and> (''not_working'', isin [''student'', ''retired'', ''unemployed''] job)
          \<in> set (df_columns enc)
    \<and> (\<forall>c vs l. (c, ObjCol vs) \<in> set (df_columns df) \<and> c \<notin> set toremove
          \<and> c \<noteq> ''no_previous_contact'' \<and> c \<noteq> ''not_working'' \<and> l \<in> set vs
          \<longrightarrow> (c @ ''_'' @ l, NumCol (map (\<lambda>v. if v = l then 1 else 0) vs))
                \<in> set (df_columns enc))
    \<and> (\<forall>c \<in> set (df_columns enc). \<not> is_object (snd c) \<and> fst c \<notin> set toremove)
    \<and> aligned enc \<and> len enc = len df"
proof -
  let ?X = "eq_999 pdays"
  let ?Y = "isin [''student'', ''retired'', ''unemployed''] job"
  let ?df2 = "setitem (setitem df ''no_previous_contact'' ?X) ''not_working'' ?Y"
  let ?cs = "filter (\<lambda>c. fst c \<notin> set toremove) (df_columns ?df2)"
  let ?df3 = "?df2\<lparr>df_columns := ?cs\<rparr>"
  let ?enc = "get_dummies ?df3"
  have enc: "one_hot_encoded df = Inr ?enc"
    by (rule indicators_and_removal[OF assms(1,3,4)])
  have cs: "set ?cs = {c \<in> set (df_columns df). fst c \<notin> set toremove
            \<and> fst c \<noteq> ''no_previous_contact'' \<and> fst c \<noteq> ''not_working''}
       \<union> {(''no_previous_contact'', ?X), (''not_working'', ?Y)}"
    by (rule kept_columns)
  have cols3: "df_columns ?df3 = ?cs" by simp
  have S: "set (df_columns ?enc)
     = {c \<in> set ?cs. \<not> is_object (snd c)}
       \<union> (\<Union>c \<in> {c \<in> set ?cs. is_object (snd c)}. set (dummies_1d c))"
    by (simp only: set_get_dummies cols3)
  have a: "(''no_previous_contact'', ?X) \<in> set (df_columns ?enc)"
    unfolding S cs by (simp add: numeric_eq_999)
  have b: "(''not_working'', ?Y) \<in> set (df_columns ?enc)"
    unfolding S cs by (simp add: numeric_isin)
  have c: "\<forall>c vs l. (c, ObjCol vs) \<in> set (df_columns df) \<and> c \<notin> set toremove
          \<and> c \<noteq> ''no_previous_contact'' \<and> c \<noteq> ''not_working'' \<and> l \<in> set vs
          \<longrightarrow> (c @ ''_'' @ l, NumCol (map (\<lambda>v. if v = l then 1 else 0) vs))
                \<in> set (df_columns ?enc)"
  proof (intro allI impI)
    fix c vs l
    assume h: "(c, ObjCol vs) \<in> set (df_columns df) \<and> c \<notin> set toremove
          \<and> c \<noteq> ''no_previous_contact'' \<and> c \<noteq> ''not_working'' \<and> l \<in> set vs"
    then have "(c, ObjCol vs) \<in> {c \<in> set ?cs. is_object (snd c)}"
      unfolding cs by simp
    moreover have "(c @ ''_'' @ l, NumCol (map (\<lambda>v. if v = l then 1 else 0) vs))
        \<in> set (dummies_1d (c, ObjCol vs))"
      using h unfolding dummies_1d_object by (intro imageI) simp
    ultimately show "(c @ ''_'' @ l, NumCol (map (\<lambda>v. if v = l then 1 else 0) vs))
                \<in> set (df_columns ?enc)"
      unfolding S by blast
  qed
  have d: "\<forall>c \<in> set (df_columns ?enc). \<not> is_object (snd c) \<and> fst c \<notin> set toremove"
  proof
    fix c
    assume m: "c \<in> set (df_columns ?enc)"
    have num: "\<not> is_object (snd c)" using m by (rule get_dummies_numeric)
    from m consider "c \<in> set ?cs"
      | k vs where "(k, ObjCol vs) \<in> set ?cs" "c \<in> set (dummies_1d (k, ObjCol vs))"
    proof -
      assume r1: "c \<in> set ?cs \<Longrightarrow> thesis"
        and r2: "\<And>k vs. (k, ObjCol vs) \<in> set ?cs \<Longrightarrow> c \<in> set (dummies_1d (k, ObjCol vs)) \<Longrightarrow> thesis"
      from m[unfolded S] show thesis
      proof
        assume "c \<in> {c \<in> set ?cs. \<not> is_object (snd c)}"
        then show thesis using r1 by simp
      next
        assume "c \<in> (\<Union>c \<in> {c \<in> set ?cs. is_object (snd c)}. set (dummies_1d c))"
        then obtain e where e: "e \<in> set ?cs" "is_object (snd e)" "c \<in> set (dummies_1d e)"
          by blast
        obtain k col where ke: "e = (k, col)" by (cases e)
        then obtain vs where "col = ObjCol vs" using e(2) by (cases col) simp_all
        then show thesis using r2 e ke by simp
      qed
    qed
    then have "fst c \<notin> set toremove"
    proof cases
      case 1
      then show ?thesis by simp
    next
      case 2
      then obtain l where "fst c = k @ ''_'' @ l"
        unfolding dummies_1d_object by auto
      then have "CHR ''_'' \<in> set (fst c)" by simp
      then show ?thesis by (rule underscore_not_removed)
    qed
    then show "\<not> is_object (snd c) \<and> fst c \<notin> set toremove" using num by simp
  qed
  have l2: "len ?df3 = len df" by (simp add: len_def setitem_def)
  have "col_len ?X = len df" "col_len ?Y = len df"
    using aligned_col_len[OF assms(2,3)] aligned_col_len[OF assms(2,4)]
    by (simp_all add: col_len_eq_999 col_len_isin)
  then have "aligned ?df3"
    using assms(2) unfolding aligned_def list_all_iff cols3 cs l2 by auto
  then have e: "aligned ?enc" "len ?enc = len df"
    by (simp_all add: aligned_get_dummies len_get_dummies l2)
  show ?thesis using enc a b c d e by blast
qed

lemma pipeline_facts:
  assumes wf: "wf_frame df" and perm: "is_permutation perm (len df)" and n: "len df < 2 ^ 47"
    and pd: "(''pdays'', NumCol pv) \<in> set (df_columns df)"
    and jb: "(''job'', ObjCol jv) \<in> set (df_columns df)"
    and y: "(''y'', ObjCol yv) \<in> set (df_columns df)"
    and yes: "''yes'' \<in> set yv" and no: "''no'' \<in> set yv"
  shows "\<exists>out pre train validation test.
      process perm df = Inr out
    \<and> process [0..<len df] df = Inr pre
    \<and> preprocessing_main perm df = Inr (train, validation, test)
    \<and> (''no_previous_contact'', NumCol (map (\<lambda>p. if pv ! p = 999 then 1 else 0) perm))
          \<in> set (df_columns out)
    \<and> (''not_working'',
          NumCol (map (\<lambda>p. if jv ! p \<in> set [''student'', ''retired'', ''unemployed'']
                             then 1 else 0) perm))
          \<in> set (df_columns out)
    \<and> set (labels out) \<inter> set toremove = {}
    \<and> (\<forall>c \<in> set (df_columns out). \<not> is_object (snd c))
    \<and> (\<forall>c vs l. (c, ObjCol vs) \<in> set (df_columns df) \<and> c \<notin> set toremove
          \<and> c \<noteq> ''no_previous_contact'' \<and> c \<noteq> ''not_working'' \<and> l \<in> set vs
          \<and> c @ ''_'' @ l \<noteq> ''y_no''
          \<longrightarrow> (c @ ''_'' @ l, NumCol (map (\<lambda>p. if vs ! p = l then 1 else 0) perm))
                \<in> set (df_columns out))
    \<and> mset (map snd (frame_rows out)) = mset (map snd (frame_rows pre))
    \<and> len out = len df
    \<and> frame_rows train @ frame_rows validation @ frame_rows test = frame_rows out
    \<and> len train = fst (split_points (len df))
    \<and> len validation = snd (split_points (len df)) - fst (split_points (len df))
    \<and> len test = len df - snd (split_points (len df))
    \<and> 10 * fst (split_points (len df)) \<le> 7 * len df
    \<and> 7 * len df \<le> 10 * (fst (split_points (len df)) + 1)
    \<and> 20 * snd (split_points (len df)) \<le> 17 * len df
    \<and> 17 * len df \<le> 20 * (snd (split_points (len df)) + 1)"
proof -
  have dist: "distinct (labels df)" and al: "aligned df"
    using wf by (simp_all add: wf_frame_def)
  let ?X = "eq_999 (NumCol pv)"
  let ?Y = "isin [''student'', ''retired'', ''unemployed''] (ObjCol jv)"
  obtain enc where enc: "one_hot_encoded df = Inr enc"
    and e1: "(''no_previous_contact'', ?X) \<in> set (df_columns enc)"
    and e2: "(''not_working'', ?Y) \<in> set (df_columns enc)"
    and e3: "\<And>c vs l. (c, ObjCol vs) \<in> set (df_columns df) \<Longrightarrow> c \<notin> set toremove
          \<Longrightarrow> c \<noteq> ''no_previous_contact'' \<Longrightarrow> c \<noteq> ''not_working'' \<Longrightarrow> l \<in> set vs
          \<Longrightarrow> (c @ ''_'' @ l, NumCol (map (\<lambda>v. if v = l then 1 else 0) vs))
                \<in> set (df_columns enc)"
    and e4: "\<And>c. c \<in> set (df_columns enc) \<Longrightarrow> \<not> is_object (snd c) \<and> fst c \<notin> set toremove"
    and e5: "aligned enc" "len enc = len df"
    using encoded_frame[OF dist al pd jb] by blast
  have ynot: "''y'' \<notin> set toremove" "''y'' \<noteq> ''no_previous_contact''" "''y'' \<noteq> ''not_working''"
    by (simp_all add: toremove_def)
  have "(''y'' @ ''_'' @ ''yes'', NumCol (map (\<lambda>v. if v = ''yes'' then 1 else 0) yv))
          \<in> set (df_columns enc)"
    by (rule e3[OF y ynot yes])
  then have yy: "''y_yes'' \<in> set (labels enc)" by (force simp: labels_def)
  have "(''y'' @ ''_'' @ ''no'', NumCol (map (\<lambda>v. if v = ''no'' then 1 else 0) yv))
          \<in> set (df_columns enc)"
    by (rule e3[OF y ynot no])
  then have yn: "''y_no'' \<in> set (labels enc)" by (force simp: labels_def)
  obtain df5 where l5: "label_first enc = Inr df5"
    using yy yn by (simp add: label_first_def)
  have S5: "set (df_columns df5) = {c \<in> set (df_columns enc). fst c \<noteq> ''y_no''}"
    by (rule set_label_first[OF l5])
  have len5: "len df5 = len df" using len_label_first[OF l5] e5(2) by simp
  let ?out = "reset_index (sample_all perm df5)"
  let ?pre = "reset_index (sample_all [0..<len df] df5)"
  have po: "process perm df = Inr ?out" by (simp add: process_stages enc l5)
  have pp: "process [0..<len df] df = Inr ?pre" by (simp add: process_stages enc l5)
  have lperm: "length perm = len df" by (rule length_permutation[OF perm])
  have lout: "len ?out = len df" by (simp add: len_shuffled lperm)
  have bound: "\<And>p. p \<in> set perm \<Longrightarrow> p < len df" by (rule permutation_bound[OF perm])
  have keep: "\<And>k c. (k, c) \<in> set (df_columns enc) \<Longrightarrow> k \<noteq> ''y_no''
                \<Longrightarrow> (k, take_rows perm c) \<in> set (df_columns ?out)"
  proof -
    fix k c
    assume "(k, c) \<in> set (df_columns enc)" "k \<noteq> ''y_no''"
    then have "(k, c) \<in> set (df_columns df5)" unfolding S5 by simp
    then show "(k, take_rows perm c) \<in> set (df_columns ?out)" by (rule mem_shuffled)
  qed
  have lpv: "length pv = len df" using aligned_col_len[OF al pd] by simp
  have ljv: "length jv = len df" using aligned_col_len[OF al jb] by simp
  have eqX: "take_rows perm ?X = NumCol (map (\<lambda>p. if pv ! p = 999 then 1 else 0) perm)"
    using bound lpv by simp
  have c1: "(''no_previous_contact'',
       NumCol (map (\<lambda>p. if pv ! p = 999 then 1 else 0) perm)) \<in> set (df_columns ?out)"
    unfolding eqX[symmetric] by (rule keep[OF e1]) simp
  have eqY: "take_rows perm ?Y
      = NumCol (map (\<lambda>p. if jv ! p \<in> set [''student'', ''retired'', ''unemployed'']
                             then 1 else 0) perm)"
    using bound ljv by simp
  have c2: "(''not_working'',
          NumCol (map (\<lambda>p. if jv ! p \<in> set [''student'', ''retired'', ''unemployed'']
                             then 1 else 0) perm)) \<in> set (df_columns ?out)"
    unfolding eqY[symmetric] by (rule keep[OF e2]) simp
  have c3: "set (labels ?out) \<inter> set toremove = {}"
  proof -
    have "\<And>k. k \<in> set (labels df5) \<Longrightarrow> k \<notin> set toremove"
      using e4 unfolding labels_def S5 set_map by auto
    then show ?thesis unfolding labels_shuffled by blast
  qed
  have c4: "\<forall>c \<in> set (df_columns ?out). \<not> is_object (snd c)"
    using e4 unfolding columns_shuffled S5 set_map by (auto simp: numeric_take_rows)
  have c5: "\<forall>c vs l. (c, ObjCol vs) \<in> set (df_columns df) \<and> c \<notin> set toremove
          \<and> c \<noteq> ''no_previous_contact'' \<and> c \<noteq> ''not_working'' \<and> l \<in> set vs
          \<and> c @ ''_'' @ l \<noteq> ''y_no''
          \<longrightarrow> (c @ ''_'' @ l, NumCol (map (\<lambda>p. if vs ! p = l then 1 else 0) perm))
                \<in> set (df_columns ?out)"
  proof (intro allI impI)
    fix c vs l
    assume h: "(c, ObjCol vs) \<in> set (df_columns df) \<and> c \<notin> set toremove
          \<and> c \<noteq> ''no_previous_contact'' \<and> c \<noteq> ''not_working'' \<and> l \<in> set vs
          \<and> c @ ''_'' @ l \<noteq> ''y_no''"
    then have m: "(c @ ''_'' @ l, NumCol (map (\<lambda>v. if v = l then 1 else 0) vs))
                \<in> set (df_columns enc)"
      using e3 by blast
    have "length vs = len df" using aligned_col_len[OF al] h by fastforce
    then have eqV: "take_rows perm (NumCol (map (\<lambda>v. if v = l then 1 else 0) vs))
        = NumCol (map (\<lambda>p. if vs ! p = l then 1 else 0) perm)"
      using bound by simp
    have "c @ ''_'' @ l \<noteq> ''y_no''" using h by blast
    then show "(c @ ''_'' @ l, NumCol (map (\<lambda>p. if vs ! p = l then 1 else 0) perm))
                \<in> set (df_columns ?out)"
      unfolding eqV[symmetric] by (rule keep[OF m])
  qed
  have perm5: "is_permutation perm (len df5)" using perm len5 by simp
  have id5: "is_permutation [0..<len df] (len df5)" using identity_permutation len5 by simp
  have c6: "mset (map snd (frame_rows ?out)) = mset (map snd (frame_rows ?pre))"
    by (simp only: rows_shuffled_mset[OF perm5] rows_shuffled_mset[OF id5])
  let ?a = "fst (split_points (len df))"
  let ?b = "snd (split_points (len df))"
  obtain train validation test where sp: "np_split ?out ?a ?b = (train, validation, test)"
    by (cases "np_split ?out ?a ?b") auto
  have main: "preprocessing_main perm df = Inr (train, validation, test)"
    using sp by (simp add: preprocessing_main_def po lout)
  have dix: "distinct (df_index ?out)" by (simp add: index_shuffled)
  have nout: "len ?out < 2 ^ 47" using n lout by simp
  have sp': "np_split ?out (fst (split_points (len ?out))) (snd (split_points (len ?out)))
           = (train, validation, test)"
    using sp lout by simp
  note part = np_split_rows[OF aligned_shuffled dix nout sp', unfolded lout]
  show ?thesis
    using po pp main c1 c2 c3 c4 c5 c6 lout part by blast
qed

text \<open>
  C9, as stated, fails at the sizes: for an input of 90 rows the double product \<^verbatim>\<open>.7*90\<close> is
  \<open>62.99999999999999\<close>, so the script writes a train set of 62 rows and a validation set of
  14, while \<open>floor(0.7 * 90) = 63\<close> and \<open>floor(0.85 * 90) - floor(0.7 * 90) = 13\<close>.
\<close>

theorem train_size_90:
  "len ninety_rows = 90
   \<and> map_sum id split_sizes (preprocessing_main [0..<90] ninety_rows) = Inr (62, 14, 14)
   \<and> \<lfloor>7 / 10 * (90 :: rat)\<rfloor> = 63
   \<and> \<lfloor>85 / 100 * (90 :: rat)\<rfloor> - \<lfloor>7 / 10 * (90 :: rat)\<rfloor> = 13"
proof -
  have n: "len ninety_rows = 90"
    by (simp add: ninety_rows_def len_def del: upt_rec_numeral)
  have h1: "wf_frame ninety_rows"
    by (simp add: ninety_rows_def wf_frame_def aligned_def labels_def len_def del: upt_rec_numeral)
  have h2: "is_permutation [0..<90] (len ninety_rows)"
    unfolding n by (rule identity_permutation)
  have h3: "len ninety_rows < 2 ^ 47" by (simp add: n)
  have h4: "(''pdays'', NumCol (replicate 90 999)) \<in> set (df_columns ninety_rows)"
    by (simp add: ninety_rows_def)
  have h5: "(''job'', ObjCol (replicate 90 ''admin.'')) \<in> set (df_columns ninety_rows)"
    by (simp add: ninety_rows_def)
  have h6: "(''y'', ObjCol (''yes'' # replicate 89 ''no'')) \<in> set (df_columns ninety_rows)"
    by (simp add: ninety_rows_def)
  have h7: "''yes'' \<in> set (''yes'' # replicate 89 ''no'')" by simp
  have h8: "''no'' \<in> set (''yes'' # replicate 89 ''no'')" by simp
  from pipeline_facts [OF h1 h2 h3 h4 h5 h6 h7 h8]
  obtain train validation test where
    r: "preprocessing_main [0..<90] ninety_rows = Inr (train, validation, test)"
      "len train = fst (split_points (len ninety_rows))"
      "len validation = snd (split_points (len ninety_rows)) - fst (split_points (len ninety_rows))"
      "len test = len ninety_rows - snd (split_points (len ninety_rows))"
    by blast
  have "len train = 62" "len validation = 14" "len test = 14"
    using r(2,3,4) by (simp_all only: n split_points_90 fst_conv snd_conv)
  then have "map_sum id split_sizes (preprocessing_main [0..<90] ninety_rows) = Inr (62, 14, 14)"
    by (simp add: r(1) split_sizes_def)
  moreover have "\<lfloor>7 / 10 * (90 :: rat)\<rfloor> = 63" by simp
  moreover have "\<lfloor>85 / 100 * (90 :: rat)\<rfloor> - \<lfloor>7 / 10 * (90 :: rat)\<rfloor> = 13"
    by (simp add: floor_eq_iff)
  ultimately show ?thesis using n by blast
qed

text \<open>
  C1. For a frame as \<^verbatim>\<open>read_csv\<close> gives it for the bank data (distinct labels, a numeric
  column \<open>pdays\<close>, categorical columns \<open>job\<close> and \<open>y\<close>, the latter with the values \<open>yes\<close> and
  \<open>no\<close>), the script succeeds and its result has: the indicator \<open>no_previous_contact\<close>, 1
  where \<open>pdays\<close> is 999 and 0 elsewhere, and the indicator \<open>not_working\<close>, 1 where \<open>job\<close> is
  student, retired or unemployed; none of the five removed labels; only numeric columns, with
  an indicator column for every level of every categorical column kept (but for \<open>y_no\<close>,
  which \<open>process\<close> drops); the rows of the unshuffled result in the order drawn by \<open>sample\<close>;
  and train, validation and test are its rows cut at \<open>a = int(.7*n)\<close> and \<open>b = int(.85*n)\<close>,
  which lie within one row of 70% and 85% of \<open>n\<close>.
\<close>

theorem preprocessing_pipeline:
  assumes wf: "wf_frame df" and perm: "is_permutation perm (len df)" and n: "len df < 2 ^ 47"
    and pd: "(''pdays'', NumCol pv) \<in> set (df_columns df)"
    and jb: "(''job'', ObjCol jv) \<in> set (df_columns df)"
    and y: "(''y'', ObjCol yv) \<in> set (df_columns df)"
    and yes: "''yes'' \<in> set yv" and no: "''no'' \<in> set yv"
  shows "\<exists>out pre train validation test.
      process perm df = Inr out
    \<and> process [0..<len df] df = Inr pre
    \<and> preprocessing_main perm df = Inr (train, validation, test)
    \<and> (''no_previous_contact'', NumCol (map (\<lambda>p. if pv ! p = 999 then 1 else 0) perm))
          \<in> set (df_columns out)
    \<and> (''not_working'',
          NumCol (map (\<lambda>p. if jv ! p \<in> set [''student'', ''retired'', ''unemployed'']
                             then 1 else 0) perm))
          \<in> set (df_columns out)
    \<and> set (labels out) \<inter> set toremove = {}
    \<and> (\<forall>c \<in> set (df_columns out). \<not> is_object (snd c))
    \<and> (\<forall>c vs l. (c, ObjCol vs) \<in> set (df_columns df) \<and> c \<notin> set toremove
          \<and> c \<noteq> ''no_previous_contact'' \<and> c \<noteq> ''not_working'' \<and> l \<in> set vs
          \<and> c @ ''_'' @ l \<noteq> ''y_no''
          \<longrightarrow> (c @ ''_'' @ l, NumCol (map (\<lambda>p. if vs ! p = l then 1 else 0) perm))
                \<in> set (df_columns out))
    \<and> mset (map snd (frame_rows out)) = mset (map snd (frame_rows pre))
    \<and> len out = len df
    \<and> frame_rows train @ frame_rows validation @ frame_rows test = frame_rows out
    \<and> len train = fst (split_points (len df))
    \<and> len validation = snd (split_points (len df)) - fst (split_points (len df))
    \<and> len test = len df - snd (split_points (len df))
    \<and> 10 * fst (split_points (len df)) \<le> 7 * len df
    \<and> 7 * len df \<le> 10 * (fst (split_points (len df)) + 1)
    \<and> 20 * snd (split_points (len df)) \<le> 17 * len df
    \<and> 17 * len df \<le> 20 * (snd (split_points (len df)) + 1)"
  by (rule pipeline_facts [OF assms])

theorem preprocessing_pipeline_witness:
  "wf_frame bank_sample \<and> is_permutation [2, 0, 1] (len bank_sample) \<and> len bank_sample < 2 ^ 47
   \<and> (''pdays'', NumCol [999, 6, 999]) \<in> set (df_columns bank_sample)
   \<and> (''job'', ObjCol [''housemaid'', ''retired'', ''student'']) \<in> set (df_columns bank_sample)
   \<and> (''y'', ObjCol [''no'', ''yes'', ''no'']) \<in> set (df_columns bank_sample)
   \<and> ''yes'' \<in> set [''no'', ''yes'', ''no''] \<and> ''no'' \<in> set [''no'', ''yes'', ''no'']
   \<and> (\<exists>out train validation test.
         process [2, 0, 1] bank_sample = Inr out
       \<and> preprocessing_main [2, 0, 1] bank_sample = Inr (train, validation, test)
       \<and> (''no_previous_contact'', NumCol [1, 1, 0]) \<in> set (df_columns out)
       \<and> (''not_working'', NumCol [1, 0, 1]) \<in> set (df_columns out)
       \<and> set (labels out) \<inter> set toremove = {}
       \<and> (''job_retired'', NumCol [0, 0, 1]) \<in> set (df_columns out)
       \<and> frame_rows train @ frame_rows validation @ frame_rows test = frame_rows out
       \<and> len train = 2 \<and> len validation = 0 \<and> len test = 1)"
proof -
  have len: "len bank_sample = 3" by (simp add: bank_sample_def len_def)
  have h1: "wf_frame bank_sample"
    by (simp add: bank_sample_def wf_frame_def aligned_def labels_def len_def)
  have h2: "is_permutation [2, 0, 1] (len bank_sample)"
    unfolding len by (auto simp: is_permutation_def)
  have h3: "len bank_sample < 2 ^ 47" by (simp add: len)
  have h4: "(''pdays'', NumCol [999, 6, 999]) \<in> set (df_columns bank_sample)"
    by (simp add: bank_sample_def)
  have h5: "(''job'', ObjCol [''housemaid'', ''retired'', ''student'']) \<in> set (df_columns bank_sample)"
    by (simp add: bank_sample_def)
  have h6: "(''y'', ObjCol [''no'', ''yes'', ''no'']) \<in> set (df_columns bank_sample)"
    by (simp add: bank_sample_def)
  have h7: "''yes'' \<in> set [''no'', ''yes'', ''no'']" by simp
  have h8: "''no'' \<in> set [''no'', ''yes'', ''no'']" by simp
  have not_removed: "''job'' \<notin> set toremove" by (simp add: toremove_def)
  from preprocessing_pipeline [OF h1 h2 h3 h4 h5 h6 h7 h8]
  obtain out pre train validation test where
    r: "process [2, 0, 1] bank_sample = Inr out"
      "preprocessing_main [2, 0, 1] bank_sample = Inr (train, validation, test)"
      "(''no_previous_contact'', NumCol (map (\<lambda>p. if [999, 6, 999 :: rat] ! p = 999 then 1 else 0) [2, 0, 1]))
          \<in> set (df_columns out)"
      "(''not_working'',
          NumCol (map (\<lambda>p. if [''housemaid'', ''retired'', ''student''] ! p
                               \<in> set [''student'', ''retired'', ''unemployed'']
                             then 1 else 0) [2, 0, 1]))
          \<in> set (df_columns out)"
      "set (labels out) \<inter> set toremove = {}"
      "\<forall>c vs l. (c, ObjCol vs) \<in> set (df_columns bank_sample) \<and> c \<notin> set toremove
          \<and> c \<noteq> ''no_previous_contact'' \<and> c \<noteq> ''not_working'' \<and> l \<in> set vs
          \<and> c @ ''_'' @ l \<noteq> ''y_no''
          \<longrightarrow> (c @ ''_'' @ l, NumCol (map (\<lambda>p. if vs ! p = l then 1 else 0) [2, 0, 1]))
                \<in> set (df_columns out)"
      "frame_rows train @ frame_rows validation @ frame_rows test = frame_rows out"
      "len train = fst (split_points (len bank_sample))"
      "len validation = snd (split_points (len bank_sample)) - fst (split_points (len bank_sample))"
      "len test = len bank_sample - snd (split_points (len bank_sample))"
    by blast
  have a: "(''no_previous_contact'', NumCol [1, 1, 0]) \<in> set (df_columns out)"
    using r(3) by simp
  have b: "(''not_working'', NumCol [1, 0, 1]) \<in> set (df_columns out)"
    using r(4) by simp
  have "(''job'' @ ''_'' @ ''retired'',
          NumCol (map (\<lambda>p. if [''housemaid'', ''retired'', ''student''] ! p = ''retired''
                             then 1 else 0) [2, 0, 1])) \<in> set (df_columns out)"
    using r(6) h5 not_removed by (intro r(6)[rule_format]) simp
  then have c: "(''job_retired'', NumCol [0, 0, 1]) \<in> set (df_columns out)"
    by simp
  have d: "len train = 2" "len validation = 0" "len test = 1"
    using r(8,9,10) by (simp_all only: len split_points_3 fst_conv snd_conv)
  show ?thesis
    using h1 h2 h3 h4 h5 h6 h7 h8 r(1,2,5,7) a b c d by blast
qed

end
